theory Spec2Isabelle
  imports Main "HOL-Library.AList" "HOL-Library.Multiset"
begin

section \<open>Data model of \<^verbatim>\<open>snomed_graph.py\<close>\<close>

text \<open>
  Exceptions of the Python program are values.  \<open>KeyError\<close> is a lookup of a missing key
  (\<^verbatim>\<open>G.nodes[sctid]\<close>, \<^verbatim>\<open>G.edges[(u, v)]\<close>, \<^verbatim>\<open>relationship_types[typeId]\<close>),
  \<open>TypeError\<close> is the constructor call \<^verbatim>\<open>SnomedConceptDetails(sctid=sctid, **attrs)\<close> on a
  node whose attribute dictionary has no \<^verbatim>\<open>fsn\<close> (and subscripting \<^verbatim>\<open>None\<close>),
  \<open>AssertionError\<close> is a failed depth validation, \<open>NodeNotFound\<close> and \<open>NetworkXNoPath\<close> are
  raised by the path functions of the graph library, \<open>IndexError\<close> is \<^verbatim>\<open>path[0]\<close> on an
  empty list, \<open>RecursionError\<close> is raised by the interpreter at a call that would nest
  deeper than its recursion limit allows.
\<close>

datatype error =
  KeyError | TypeError | AssertionError | NodeNotFound | NetworkXNoPath | IndexError
  | RecursionError

text \<open>The attribute dictionary of a described node: \<^verbatim>\<open>{"fsn": ..., "synonyms": ...}\<close>.\<close>

record node_attrs =
  fsn :: string
  synonyms :: "string list"

text \<open>
  Class \<^verbatim>\<open>SnomedConceptDetails\<close>: the node attributes and the identifier.  The class
  compares and hashes by \<^verbatim>\<open>sctid\<close> alone; every instance the queries build takes its
  \<^verbatim>\<open>fsn\<close> and \<^verbatim>\<open>synonyms\<close> from the one node dictionary of the graph, so inside one
  graph two instances with the same \<^verbatim>\<open>sctid\<close> are equal as records as well
  (lemma \<open>get_concept_details_by_id\<close> below).
\<close>

record SnomedConceptDetails = node_attrs +
  sctid :: int

text \<open>The attribute dictionary of an edge: \<^verbatim>\<open>group\<close>, \<^verbatim>\<open>type\<close>, \<^verbatim>\<open>type_id\<close>.\<close>

record edge_attrs =
  group :: int
  type_name :: string
  type_id :: int

text \<open>Class \<^verbatim>\<open>SnomedRelationship\<close>: \<^verbatim>\<open>SnomedRelationship(src, tgt, **vals)\<close>.\<close>

record SnomedRelationship = edge_attrs +
  src :: SnomedConceptDetails
  tgt :: SnomedConceptDetails

text \<open>Class \<^verbatim>\<open>SnomedRelationshipGroup\<close>.\<close>

datatype SnomedRelationshipGroup =
  SnomedRelationshipGroup (group_no: int) (relationships: "SnomedRelationship list")

text \<open>
  The \<^verbatim>\<open>nx.DiGraph\<close> held in \<^verbatim>\<open>self.G\<close>.  Both of its dictionaries keep insertion order,
  so both are association lists.  A node maps to \<open>None\<close> when its attribute dictionary is
  empty (a node that \<^verbatim>\<open>add_edge\<close> created and no description row filled in) and to
  \<open>Some a\<close> when it carries \<^verbatim>\<open>fsn\<close> and \<^verbatim>\<open>synonyms\<close>.  The edge dictionary is keyed by the
  ordered pair (source, target); the successors of \<open>u\<close> in the library's adjacency order
  are the targets of the entries with source \<open>u\<close> in list order, the predecessors of \<open>v\<close>
  the sources of the entries with target \<open>v\<close>.
\<close>

record DiGraph =
  nodes :: "(int \<times> node_attrs option) list"
  edges :: "((int \<times> int) \<times> edge_attrs) list"

definition fsn_typeId :: int where
  "fsn_typeId = 900000000000003001"

definition is_a_relationship_typeId :: int where
  "is_a_relationship_typeId = 116680003"

definition root_concept_id :: int where
  "root_concept_id = 138875005"

section \<open>Reading nodes and edges\<close>

text \<open>\<^verbatim>\<open>SnomedConceptDetails(sctid=sctid, **self.G.nodes[sctid])\<close>\<close>

definition get_concept_details :: "DiGraph \<Rightarrow> int \<Rightarrow> error + SnomedConceptDetails" where
  "get_concept_details G c =
     (case map_of (nodes G) c of
        None \<Rightarrow> Inl KeyError
      | Some None \<Rightarrow> Inl TypeError
      | Some (Some a) \<Rightarrow> Inr \<lparr>fsn = fsn a, synonyms = synonyms a, sctid = c\<rparr>)"

text \<open>\<^verbatim>\<open>self.G.edges[(src_sctid, tgt_sctid)]\<close>\<close>

definition edge_vals :: "DiGraph \<Rightarrow> int \<times> int \<Rightarrow> error + edge_attrs" where
  "edge_vals G e = (case map_of (edges G) e of None \<Rightarrow> Inl KeyError | Some vals \<Rightarrow> Inr vals)"

text \<open>\<^verbatim>\<open>self.G.out_edges(u)\<close> and \<^verbatim>\<open>self.G.in_edges(v)\<close>, as lists of node pairs.\<close>

definition out_edges :: "DiGraph \<Rightarrow> int \<Rightarrow> (int \<times> int) list" where
  "out_edges G u = filter (\<lambda>e. fst e = u) (map fst (edges G))"

definition in_edges :: "DiGraph \<Rightarrow> int \<Rightarrow> (int \<times> int) list" where
  "in_edges G v = filter (\<lambda>e. snd e = v) (map fst (edges G))"

text \<open>A list comprehension whose element expression may raise: the first exception wins.\<close>

fun mapM :: "('a \<Rightarrow> error + 'b) \<Rightarrow> 'a list \<Rightarrow> error + 'b list" where
  "mapM f [] = Inr []"
| "mapM f (x # xs) =
     (case f x of
        Inl e \<Rightarrow> Inl e
      | Inr y \<Rightarrow> (case mapM f xs of Inl e \<Rightarrow> Inl e | Inr ys \<Rightarrow> Inr (y # ys)))"

text \<open>
  \<^verbatim>\<open>for x in xs: acc = acc.union(f(x))\<close> where the call may raise.
\<close>

fun union_calls :: "('a \<Rightarrow> error + 'b set) \<Rightarrow> 'a list \<Rightarrow> 'b set \<Rightarrow> error + 'b set" where
  "union_calls f [] acc = Inr acc"
| "union_calls f (x # xs) acc =
     (case f x of Inl e \<Rightarrow> Inl e | Inr s \<Rightarrow> union_calls f xs (acc \<union> s))"

definition make_relationship ::
  "SnomedConceptDetails \<Rightarrow> SnomedConceptDetails \<Rightarrow> edge_attrs \<Rightarrow> SnomedRelationship" where
  "make_relationship s t vals =
     \<lparr>group = group vals, type_name = type_name vals, type_id = type_id vals, src = s, tgt = t\<rparr>"

text \<open>
  The generators \<^verbatim>\<open>__get_out_relationships\<close> and \<^verbatim>\<open>__get_in_relationships\<close>, consumed to the
  end by every caller.
\<close>

definition get_out_relationships :: "DiGraph \<Rightarrow> int \<Rightarrow> error + SnomedRelationship list" where
  "get_out_relationships G src_sctid =
     (case get_concept_details G src_sctid of
        Inl e \<Rightarrow> Inl e
      | Inr s \<Rightarrow>
          mapM (\<lambda>(_, tgt_sctid).
                  case get_concept_details G tgt_sctid of
                    Inl e \<Rightarrow> Inl e
                  | Inr t \<Rightarrow>
                      (case edge_vals G (src_sctid, tgt_sctid) of
                         Inl e \<Rightarrow> Inl e
                       | Inr vals \<Rightarrow> Inr (make_relationship s t vals)))
               (out_edges G src_sctid))"

definition get_in_relationships :: "DiGraph \<Rightarrow> int \<Rightarrow> error + SnomedRelationship list" where
  "get_in_relationships G tgt_sctid =
     (case get_concept_details G tgt_sctid of
        Inl e \<Rightarrow> Inl e
      | Inr t \<Rightarrow>
          mapM (\<lambda>(src_sctid, _).
                  case get_concept_details G src_sctid of
                    Inl e \<Rightarrow> Inl e
                  | Inr s \<Rightarrow>
                      (case edge_vals G (src_sctid, tgt_sctid) of
                         Inl e \<Rightarrow> Inl e
                       | Inr vals \<Rightarrow> Inr (make_relationship s t vals)))
               (in_edges G tgt_sctid))"

definition get_children :: "DiGraph \<Rightarrow> int \<Rightarrow> error + SnomedConceptDetails list" where
  "get_children G c =
     (case get_in_relationships G c of
        Inl e \<Rightarrow> Inl e
      | Inr rs \<Rightarrow> Inr (map src (filter (\<lambda>r. type_id r = is_a_relationship_typeId) rs)))"

definition get_parents :: "DiGraph \<Rightarrow> int \<Rightarrow> error + SnomedConceptDetails list" where
  "get_parents G c =
     (case get_out_relationships G c of
        Inl e \<Rightarrow> Inl e
      | Inr rs \<Rightarrow> Inr (map tgt (filter (\<lambda>r. type_id r = is_a_relationship_typeId) rs)))"

section \<open>Depth-bounded traversals\<close>

text \<open>
  The depth argument \<^verbatim>\<open>steps_removed\<close> is an \<^verbatim>\<open>int\<close> or \<^verbatim>\<open>None\<close>; \<open>steps_value\<close> is its
  value after the first two lines of \<^verbatim>\<open>get_descendants\<close> and \<^verbatim>\<open>get_ancestors\<close>.
  The three functions below are the bodies as written, run by an interpreter that lets
  calls nest as deep as the depth argument asks; \<open>get_ancestors_within\<close> further down is
  \<^verbatim>\<open>get_ancestors\<close> under a recursion limit.
\<close>

definition steps_value :: "int option \<Rightarrow> int" where
  "steps_value steps_removed = (case steps_removed of None \<Rightarrow> 99999 | Some k \<Rightarrow> k)"

function get_descendants :: "DiGraph \<Rightarrow> int \<Rightarrow> int option \<Rightarrow> error + SnomedConceptDetails set" where
  "get_descendants G c steps_removed =
     (if steps_removed \<noteq> None \<and> steps_value steps_removed \<le> 0 then Inl AssertionError
      else
        case get_children G c of
          Inl e \<Rightarrow> Inl e
        | Inr children \<Rightarrow>
            if steps_value steps_removed > 1
            then union_calls
                   (\<lambda>ch. get_descendants G (sctid ch) (Some (steps_value steps_removed - 1)))
                   children (set children)
            else Inr (set children))"
  by pat_completeness auto
termination
  by (relation "measure (\<lambda>(G, c, s). nat (steps_value s))") (auto simp: steps_value_def)

function get_ancestors :: "DiGraph \<Rightarrow> int \<Rightarrow> int option \<Rightarrow> error + SnomedConceptDetails set" where
  "get_ancestors G c steps_removed =
     (if steps_removed \<noteq> None \<and> steps_value steps_removed \<le> 0 then Inl AssertionError
      else
        case get_parents G c of
          Inl e \<Rightarrow> Inl e
        | Inr parents \<Rightarrow>
            (case (if steps_value steps_removed > 1
                   then union_calls
                          (\<lambda>p. get_ancestors G (sctid p) (Some (steps_value steps_removed - 1)))
                          parents (set parents)
                   else Inr (set parents)) of
               Inl e \<Rightarrow> Inl e
             | Inr ancestors \<Rightarrow> Inr {a \<in> ancestors. \<not> sctid a = root_concept_id}))"
  by pat_completeness auto
termination
  by (relation "measure (\<lambda>(G, c, s). nat (steps_value s))") (auto simp: steps_value_def)

text \<open>
  \<^verbatim>\<open>get_neighbourhood\<close> takes an \<^verbatim>\<open>int\<close> (default 1).  It iterates over
  \<^verbatim>\<open>list(neighbourhood)\<close>, a hash set turned into a list: the model iterates over the
  parents and then the children, without repetitions.  The order only decides which of
  several exceptions is met first.  The result, a list made from a set, is a set here.
\<close>

function get_neighbourhood :: "DiGraph \<Rightarrow> int \<Rightarrow> int \<Rightarrow> error + SnomedConceptDetails set" where
  "get_neighbourhood G c steps_removed =
     (if \<not> steps_removed > 0 then Inl AssertionError
      else
        case get_parents G c of
          Inl e \<Rightarrow> Inl e
        | Inr parents \<Rightarrow>
            (case get_children G c of
               Inl e \<Rightarrow> Inl e
             | Inr children \<Rightarrow>
                 (case (if steps_removed > 1
                        then union_calls
                               (\<lambda>n. get_neighbourhood G (sctid n) (steps_removed - 1))
                               (remdups (parents @ children)) (set parents \<union> set children)
                        else Inr (set parents \<union> set children)) of
                    Inl e \<Rightarrow> Inl e
                  | Inr neighbourhood \<Rightarrow>
                      Inr {n \<in> neighbourhood. sctid n \<notin> set [c, root_concept_id]})))"
  by pat_completeness auto
termination
  by (relation "measure (\<lambda>(G, c, s). nat s)") auto

declare get_descendants.simps [simp del] get_ancestors.simps [simp del]
  get_neighbourhood.simps [simp del]

text \<open>
  The interpreter counts the calls that are active at one time and raises
  \<^verbatim>\<open>RecursionError\<close> at the call that would exceed \<^verbatim>\<open>sys.getrecursionlimit()\<close> (1000 unless
  the caller has changed it).  \<open>get_ancestors_within limit\<close> is \<^verbatim>\<open>get_ancestors\<close> called when
  the interpreter has room for \<open>limit\<close> more nested activations of \<^verbatim>\<open>get_ancestors\<close>, each
  with the calls its body makes to read the parents: with no room left the call raises,
  before its body runs; every recursive call has the room of its caller less one.  The
  exception passes through the loops of the callers unchanged, no caller catches it.
\<close>

fun get_ancestors_within ::
  "nat \<Rightarrow> DiGraph \<Rightarrow> int \<Rightarrow> int option \<Rightarrow> error + SnomedConceptDetails set" where
  "get_ancestors_within 0 G c steps_removed = Inl RecursionError"
| "get_ancestors_within (Suc limit) G c steps_removed =
     (if steps_removed \<noteq> None \<and> steps_value steps_removed \<le> 0 then Inl AssertionError
      else
        case get_parents G c of
          Inl e \<Rightarrow> Inl e
        | Inr parents \<Rightarrow>
            (case (if steps_value steps_removed > 1
                   then union_calls
                          (\<lambda>p. get_ancestors_within limit G (sctid p)
                                  (Some (steps_value steps_removed - 1)))
                          parents (set parents)
                   else Inr (set parents)) of
               Inl e \<Rightarrow> Inl e
             | Inr ancestors \<Rightarrow> Inr {a \<in> ancestors. \<not> sctid a = root_concept_id}))"

declare get_ancestors_within.simps [simp del]

text \<open>
  The relation between a call of a traversal and the recursive calls it makes, as the
  definitions above determine it: \<open>ancestors_call callee caller\<close> holds when the body of
  \<^verbatim>\<open>get_ancestors\<close> run on the arguments \<open>caller\<close> reaches a recursive call on \<open>callee\<close>.
\<close>

definition descendants_call ::
  "DiGraph \<times> int \<times> int option \<Rightarrow> DiGraph \<times> int \<times> int option \<Rightarrow> bool" where
  "descendants_call callee caller = get_descendants_rel callee caller"

definition ancestors_call ::
  "DiGraph \<times> int \<times> int option \<Rightarrow> DiGraph \<times> int \<times> int option \<Rightarrow> bool" where
  "ancestors_call callee caller = get_ancestors_rel callee caller"

definition neighbourhood_call ::
  "DiGraph \<times> int \<times> int \<Rightarrow> DiGraph \<times> int \<times> int \<Rightarrow> bool" where
  "neighbourhood_call callee caller = get_neighbourhood_rel callee caller"

section \<open>Relationship groups\<close>

text \<open>
  \<^verbatim>\<open>itertools.groupby(xs, key)\<close>: the maximal runs of consecutive elements with equal key,
  each with its key, in the order of the list.
\<close>

function groupby :: "('a \<Rightarrow> 'k) \<Rightarrow> 'a list \<Rightarrow> ('k \<times> 'a list) list" where
  "groupby key [] = []"
| "groupby key (x # xs) =
     (key x, x # takeWhile (\<lambda>y. key y = key x) xs)
       # groupby key (dropWhile (\<lambda>y. key y = key x) xs)"
  by pat_completeness auto
termination
  by (relation "measure (\<lambda>(key, xs). length xs)") (auto simp: length_dropWhile_le less_Suc_eq_le)

text \<open>
  \<^verbatim>\<open>get_inferred_relationships\<close>.  \<^verbatim>\<open>sorted(..., key=key_)\<close> is a stable sort, as
  \<^const>\<open>sort_key\<close> is.
\<close>

definition get_inferred_relationships ::
  "DiGraph \<Rightarrow> int \<Rightarrow> error + SnomedRelationshipGroup list" where
  "get_inferred_relationships G c =
     (case get_out_relationships G c of
        Inl e \<Rightarrow> Inl e
      | Inr rs \<Rightarrow>
          (let inferred_relationships =
                 filter (\<lambda>r. type_id r \<noteq> is_a_relationship_typeId) rs;
               inferred_relationships_grouped =
                 groupby group (sort_key group inferred_relationships)
           in Inr (map (\<lambda>(g, r). SnomedRelationshipGroup g r) inferred_relationships_grouped)))"

text \<open>The pair of identifiers a relationship connects.\<close>

definition rel_edge :: "SnomedRelationship \<Rightarrow> int \<times> int" where
  "rel_edge r = (sctid (src r), sctid (tgt r))"

text \<open>
  For stating what \<^verbatim>\<open>get_inferred_relationships\<close> returns: a node is described when its
  attribute dictionary carries \<^verbatim>\<open>fsn\<close> and \<^verbatim>\<open>synonyms\<close>; \<open>inferred_edge G k e\<close> holds when
  \<open>e\<close> is an edge of \<open>G\<close> whose type is not \<^verbatim>\<open>is a\<close> and whose group number is \<open>k\<close>.
\<close>

definition described :: "DiGraph \<Rightarrow> int \<Rightarrow> bool" where
  "described G n \<longleftrightarrow> (case map_of (nodes G) n of Some (Some a) \<Rightarrow> True | _ \<Rightarrow> False)"

definition inferred_edge :: "DiGraph \<Rightarrow> int \<Rightarrow> int \<times> int \<Rightarrow> bool" where
  "inferred_edge G k e \<longleftrightarrow>
     (case map_of (edges G) e of
        None \<Rightarrow> False
      | Some a \<Rightarrow> type_id a \<noteq> is_a_relationship_typeId \<and> group a = k)"

section \<open>Paths\<close>

text \<open>
  The path functions of the graph library that \<^verbatim>\<open>path_to_root\<close> and \<^verbatim>\<open>find_path\<close> call are
  not part of the program; they are modelled from their documented behaviour.
  \<open>has_node G n\<close> is \<^verbatim>\<open>n in G\<close>, \<open>successors G u\<close> the iteration over \<^verbatim>\<open>G[u]\<close>.
\<close>

definition has_node :: "DiGraph \<Rightarrow> int \<Rightarrow> bool" where
  "has_node G n \<longleftrightarrow> n \<in> set (map fst (nodes G))"

definition successors :: "DiGraph \<Rightarrow> int \<Rightarrow> int list" where
  "successors G u = map snd (out_edges G u)"

text \<open>
  \<^verbatim>\<open>nx.all_simple_paths(G, source, target)\<close> generates the simple paths from \<^verbatim>\<open>source\<close> to
  \<^verbatim>\<open>target\<close> by a depth-first search that follows the successors of a node in adjacency
  order, skips the nodes already on the path and does not search beyond the target.
  \<open>visited\<close> is the path before the current node.  The library's cut-off, the number of
  nodes less one, bounds no simple path.  The library raises \<^verbatim>\<open>NodeNotFound\<close> when a node
  is not in the graph; for equal source and target it yields the single path of that
  node (versions before 3.2 yield nothing, which \<^verbatim>\<open>path_to_root\<close> does not tell apart).
\<close>

function simple_paths_from :: "DiGraph \<Rightarrow> int \<Rightarrow> int list \<Rightarrow> int \<Rightarrow> int list list" where
  "simple_paths_from G target visited current =
     concat (map (\<lambda>child.
                    if child \<in> set visited \<or> child = current then []
                    else if child = target then [visited @ [current, child]]
                    else simple_paths_from G target (visited @ [current]) child)
                 (successors G current))"
  by pat_completeness auto
termination
proof (relation "measure (\<lambda>(G, target, visited, current).
          card (set (map (snd \<circ> fst) (edges G)) - set visited - {current}))")
  show "wf (measure (\<lambda>(G, target, visited, current).
          card (set (map (snd \<circ> fst) (edges G)) - set visited - {current})))"
    by simp
next
  fix G :: DiGraph and target :: int and visited :: "int list" and current child :: int
  assume c: "child \<in> set (successors G current)"
    and n: "\<not> (child \<in> set visited \<or> child = current)"
  let ?V = "set (map (snd \<circ> fst) (edges G))"
  from c have "child \<in> ?V" by (force simp: successors_def out_edges_def)
  with n have "child \<in> ?V - set visited - {current}" by simp
  moreover have "?V - set (visited @ [current]) - {child} = (?V - set visited - {current}) - {child}"
    by auto
  moreover have "finite (?V - set visited - {current})" by simp
  ultimately have "card (?V - set (visited @ [current]) - {child}) < card (?V - set visited - {current})"
    by (metis card_Diff1_less)
  then show "((G, target, visited @ [current], child), (G, target, visited, current))
      \<in> measure (\<lambda>(G, target, visited, current).
          card (set (map (snd \<circ> fst) (edges G)) - set visited - {current}))"
    by simp
qed

declare simple_paths_from.simps [simp del]

definition all_simple_paths :: "DiGraph \<Rightarrow> int \<Rightarrow> int \<Rightarrow> error + int list list" where
  "all_simple_paths G source target =
     (if \<not> has_node G source then Inl NodeNotFound
      else if \<not> has_node G target then Inl NodeNotFound
      else if source = target then Inr [[source]]
      else Inr (simple_paths_from G target [] source))"

text \<open>\<^verbatim>\<open>itertools.pairwise\<close>\<close>

definition pairwise_list :: "'a list \<Rightarrow> ('a \<times> 'a) list" where
  "pairwise_list xs = zip xs (tl xs)"

text \<open>
  \<^verbatim>\<open>path_to_root\<close>.  \<open>isa_path\<close> is its inner loop over the node pairs of one candidate:
  \<open>None\<close> after the \<^verbatim>\<open>break\<close> at an edge that is not \<^verbatim>\<open>is a\<close>.  \<open>truthy\<close> is the truth value
  of a list or \<^verbatim>\<open>None\<close> in a condition, \<open>keep_shorter\<close> the statement \<^verbatim>\<open>if path: ...\<close> that
  ends the body of the outer loop, \<open>shortest_loop\<close> the outer loop.  The flag \<^verbatim>\<open>print_\<close> is
  \<open>print\<close>; what is printed is left out, the exception of \<^verbatim>\<open>shortest_path[0]\<close> on \<^verbatim>\<open>None\<close>
  is kept.
\<close>

fun isa_path ::
  "DiGraph \<Rightarrow> (int \<times> int) list \<Rightarrow> SnomedRelationship list \<Rightarrow>
     error + SnomedRelationship list option" where
  "isa_path G [] path = Inr (Some path)"
| "isa_path G ((src_sctid, tgt_sctid) # rest) path =
     (case edge_vals G (src_sctid, tgt_sctid) of
        Inl e \<Rightarrow> Inl e
      | Inr vals \<Rightarrow>
          (case get_concept_details G src_sctid of
             Inl e \<Rightarrow> Inl e
           | Inr s \<Rightarrow>
               (case get_concept_details G tgt_sctid of
                  Inl e \<Rightarrow> Inl e
                | Inr t \<Rightarrow>
                    if type_id (make_relationship s t vals) = is_a_relationship_typeId
                    then isa_path G rest (path @ [make_relationship s t vals])
                    else Inr None)))"

definition truthy :: "'a list option \<Rightarrow> bool" where
  "truthy p = (case p of None \<Rightarrow> False | Some xs \<Rightarrow> xs \<noteq> [])"

definition keep_shorter ::
  "SnomedRelationship list option \<Rightarrow> SnomedRelationship list option \<Rightarrow>
     SnomedRelationship list option" where
  "keep_shorter shortest_path path =
     (if truthy path
      then (if truthy shortest_path
            then (if length (the shortest_path) > length (the path) then path
                  else shortest_path)
            else path)
      else shortest_path)"

fun shortest_loop ::
  "DiGraph \<Rightarrow> int list list \<Rightarrow> SnomedRelationship list option \<Rightarrow>
     error + SnomedRelationship list option" where
  "shortest_loop G [] shortest_path = Inr shortest_path"
| "shortest_loop G (path_nodes # rest) shortest_path =
     (case isa_path G (pairwise_list path_nodes) [] of
        Inl e \<Rightarrow> Inl e
      | Inr path \<Rightarrow>
          shortest_loop G rest (keep_shorter shortest_path path))"

definition path_to_root ::
  "DiGraph \<Rightarrow> int \<Rightarrow> bool \<Rightarrow> error + SnomedRelationship list option" where
  "path_to_root G c print =
     (case all_simple_paths G c root_concept_id of
        Inl e \<Rightarrow> Inl e
      | Inr paths \<Rightarrow>
          (case shortest_loop G paths None of
             Inl e \<Rightarrow> Inl e
           | Inr shortest_path \<Rightarrow>
               if print
               then (case shortest_path of
                       None \<Rightarrow> Inl TypeError
                     | Some [] \<Rightarrow> Inl IndexError
                     | Some (r # rs) \<Rightarrow> Inr shortest_path)
               else Inr shortest_path))"

text \<open>
  \<^verbatim>\<open>nx.shortest_path(G, source, target)\<close> returns the nodes of a path with the fewest
  edges, raises \<^verbatim>\<open>NetworkXNoPath\<close> when there is none and \<^verbatim>\<open>NodeNotFound\<close> when a node is
  not in the graph.  Which of several shortest paths it returns is not part of its
  contract, and the library's search may return another one of the same length than the
  model, which takes the first of the shortest simple paths in the order above; nothing
  below depends on the choice.
  \<^verbatim>\<open>nx.has_path\<close> is \<^verbatim>\<open>shortest_path\<close> with \<^verbatim>\<open>NetworkXNoPath\<close> caught.
\<close>

fun first_shortest :: "'a list list \<Rightarrow> 'a list option" where
  "first_shortest [] = None"
| "first_shortest (p # ps) =
     (case first_shortest ps of
        None \<Rightarrow> Some p
      | Some q \<Rightarrow> if length p \<le> length q then Some p else Some q)"

definition shortest_path :: "DiGraph \<Rightarrow> int \<Rightarrow> int \<Rightarrow> error + int list" where
  "shortest_path G source target =
     (if \<not> has_node G source \<or> \<not> has_node G target then Inl NodeNotFound
      else if source = target then Inr [source]
      else case first_shortest (simple_paths_from G target [] source) of
             None \<Rightarrow> Inl NetworkXNoPath
           | Some p \<Rightarrow> Inr p)"

definition has_path :: "DiGraph \<Rightarrow> int \<Rightarrow> int \<Rightarrow> error + bool" where
  "has_path G source target =
     (case shortest_path G source target of
        Inl e \<Rightarrow> if e = NetworkXNoPath then Inr False else Inl e
      | Inr p \<Rightarrow> Inr True)"

text \<open>
  \<^verbatim>\<open>find_path\<close>: \<open>find_path_nodes\<close> is its choice of the node list, \<open>edge_relationship\<close> the
  body of its loop over the node pairs.  With \<^verbatim>\<open>print_\<close> set, \<^verbatim>\<open>path[0]\<close> raises
  \<^verbatim>\<open>IndexError\<close> for a path of one node.
\<close>

definition find_path_nodes :: "DiGraph \<Rightarrow> int \<Rightarrow> int \<Rightarrow> error + int list" where
  "find_path_nodes G sctid1 sctid2 =
     (case has_path G sctid1 sctid2 of
        Inl e \<Rightarrow> Inl e
      | Inr True \<Rightarrow> shortest_path G sctid1 sctid2
      | Inr False \<Rightarrow>
          (case has_path G sctid2 sctid1 of
             Inl e \<Rightarrow> Inl e
           | Inr True \<Rightarrow> shortest_path G sctid2 sctid1
           | Inr False \<Rightarrow> Inr []))"

definition edge_relationship :: "DiGraph \<Rightarrow> int \<times> int \<Rightarrow> error + SnomedRelationship" where
  "edge_relationship G e =
     (case e of (src_sctid, tgt_sctid) \<Rightarrow>
        (case edge_vals G (src_sctid, tgt_sctid) of
           Inl e \<Rightarrow> Inl e
         | Inr vals \<Rightarrow>
             (case get_concept_details G src_sctid of
                Inl e \<Rightarrow> Inl e
              | Inr s \<Rightarrow>
                  (case get_concept_details G tgt_sctid of
                     Inl e \<Rightarrow> Inl e
                   | Inr t \<Rightarrow> Inr (make_relationship s t vals)))))"

definition find_path ::
  "DiGraph \<Rightarrow> int \<Rightarrow> int \<Rightarrow> bool \<Rightarrow> error + SnomedRelationship list" where
  "find_path G sctid1 sctid2 print =
     (case find_path_nodes G sctid1 sctid2 of
        Inl e \<Rightarrow> Inl e
      | Inr path_nodes \<Rightarrow>
          (case mapM (edge_relationship G) (pairwise_list path_nodes) of
             Inl e \<Rightarrow> Inl e
           | Inr path \<Rightarrow>
               if print \<and> length path_nodes > 0 \<and> path = [] then Inl IndexError
               else Inr path))"

text \<open>
  Paths of the graph, for stating what the functions return: a path is a non-empty list
  of nodes with an edge between every two consecutive ones, and connects its first node
  to its last; a simple path repeats no node; \<open>all_isa\<close> holds when every edge of it has the \<^verbatim>\<open>is a\<close> type; \<open>is_relationship G e r\<close>
  holds when \<open>r\<close> is the \<^verbatim>\<open>SnomedRelationship\<close> built from the edge \<open>e\<close> of \<open>G\<close>.
\<close>

definition has_edge :: "DiGraph \<Rightarrow> int \<Rightarrow> int \<Rightarrow> bool" where
  "has_edge G u v \<longleftrightarrow> (u, v) \<in> set (map fst (edges G))"

definition is_path :: "DiGraph \<Rightarrow> int list \<Rightarrow> bool" where
  "is_path G p \<longleftrightarrow> p \<noteq> [] \<and> successively (has_edge G) p"

definition is_simple_path :: "DiGraph \<Rightarrow> int \<Rightarrow> int \<Rightarrow> int list \<Rightarrow> bool" where
  "is_simple_path G s t p \<longleftrightarrow> is_path G p \<and> hd p = s \<and> last p = t \<and> distinct p"

definition connects :: "DiGraph \<Rightarrow> int \<Rightarrow> int \<Rightarrow> int list \<Rightarrow> bool" where
  "connects G s t p \<longleftrightarrow> is_path G p \<and> hd p = s \<and> last p = t"

definition all_isa :: "DiGraph \<Rightarrow> int list \<Rightarrow> bool" where
  "all_isa G p \<longleftrightarrow>
     (\<forall>e\<in>set (pairwise_list p).
        case map_of (edges G) e of
          None \<Rightarrow> False
        | Some a \<Rightarrow> type_id a = is_a_relationship_typeId)"

definition is_relationship :: "DiGraph \<Rightarrow> int \<times> int \<Rightarrow> SnomedRelationship \<Rightarrow> bool" where
  "is_relationship G e r \<longleftrightarrow>
     rel_edge r = e \<and>
     get_concept_details G (fst e) = Inr (src r) \<and>
     get_concept_details G (snd e) = Inr (tgt r) \<and>
     edge_vals G e = Inr \<lparr>group = group r, type_name = type_name r, type_id = type_id r\<rparr>"

section \<open>Building the graph from a release\<close>

text \<open>
  \<^verbatim>\<open>from_rf2\<close> reads two tab-separated files into tables and builds the graph from
  them.  The model starts from the tables: a row of the relationship file and a row of
  the description file, with the columns the code reads.  The column \<^verbatim>\<open>term\<close> is the
  field \<open>term_text\<close>.
\<close>

record rf2_row =
  active :: int
  typeId :: int

record relationship_row = rf2_row +
  sourceId :: int
  destinationId :: int
  relationshipGroup :: int

record description_row = rf2_row +
  conceptId :: int
  term_text :: string

text \<open>\<^verbatim>\<open>df[df.active == 1]\<close>\<close>

definition active_rows :: "'a rf2_row_scheme list \<Rightarrow> 'a rf2_row_scheme list" where
  "active_rows df = filter (\<lambda>r. active r = 1) df"

text \<open>\<^verbatim>\<open>Series.unique()\<close>: the distinct values in order of first appearance.\<close>

definition unique :: "'a list \<Rightarrow> 'a list" where
  "unique xs = rev (remdups (rev xs))"

text \<open>
  \<^verbatim>\<open>concepts_df.loc[labels]\<close> on the table indexed by \<^verbatim>\<open>conceptId\<close>: the rows of each label
  in turn, \<^verbatim>\<open>KeyError\<close> when a label has no row.
\<close>

definition loc :: "description_row list \<Rightarrow> int list \<Rightarrow> error + description_row list" where
  "loc df labels =
     (if \<exists>l\<in>set labels. l \<notin> set (map conceptId df) then Inl KeyError
      else Inr (concat (map (\<lambda>l. filter (\<lambda>d. conceptId d = l) df) labels)))"

text \<open>
  \<^verbatim>\<open>.term.to_dict()\<close>: from \<^verbatim>\<open>conceptId\<close> to \<^verbatim>\<open>term\<close>; a later row replaces an earlier one
  with the same key.
\<close>

definition to_dict :: "description_row list \<Rightarrow> int \<rightharpoonup> string" where
  "to_dict df = map_of (rev (map (\<lambda>d. (conceptId d, term_text d)) df))"

text \<open>The relationship type lookup of \<^verbatim>\<open>from_rf2\<close>.\<close>

definition relationship_types ::
  "relationship_row list \<Rightarrow> description_row list \<Rightarrow> error + (int \<rightharpoonup> string)" where
  "relationship_types relationships_df concepts_df =
     (case loc concepts_df (unique (map typeId relationships_df)) of
        Inl e \<Rightarrow> Inl e
      | Inr rows \<Rightarrow> Inr (to_dict (filter (\<lambda>d. typeId d = fsn_typeId) rows)))"

text \<open>
  \<^verbatim>\<open>G.add_edge(u, v, **attrs)\<close> creates the two nodes with empty attribute dictionaries
  when they are new, and stores the attributes under the key \<open>(u, v)\<close>: a key that is
  already there keeps its place and takes the new attributes.  \<^verbatim>\<open>G.add_node(n, **attrs)\<close>
  does the same for a node.
\<close>

definition add_bare_node :: "int \<Rightarrow> DiGraph \<Rightarrow> DiGraph" where
  "add_bare_node n G =
     (if n \<in> set (map fst (nodes G)) then G else G\<lparr>nodes := nodes G @ [(n, None)]\<rparr>)"

definition add_edge :: "int \<Rightarrow> int \<Rightarrow> edge_attrs \<Rightarrow> DiGraph \<Rightarrow> DiGraph" where
  "add_edge u v attrs G =
     (let G' = add_bare_node v (add_bare_node u G)
      in G'\<lparr>edges := AList.update (u, v) attrs (edges G')\<rparr>)"

definition add_node :: "int \<Rightarrow> node_attrs \<Rightarrow> DiGraph \<Rightarrow> DiGraph" where
  "add_node n attrs G = G\<lparr>nodes := AList.update n (Some attrs) (nodes G)\<rparr>"

text \<open>\<^verbatim>\<open>G.remove_nodes_from(list(nx.isolates(G)))\<close>: the nodes of degree 0 go.\<close>

definition remove_isolates :: "DiGraph \<Rightarrow> DiGraph" where
  "remove_isolates G =
     G\<lparr>nodes := filter (\<lambda>(n, _). n \<in> set (map (fst \<circ> fst) (edges G)) \<or>
                                   n \<in> set (map (snd \<circ> fst) (edges G))) (nodes G)\<rparr>"

text \<open>The loop over \<^verbatim>\<open>relationships_df.to_dict(orient="records")\<close>.\<close>

fun create_relationships ::
  "(int \<rightharpoonup> string) \<Rightarrow> relationship_row list \<Rightarrow> DiGraph \<Rightarrow> error + DiGraph" where
  "create_relationships types [] G = Inr G"
| "create_relationships types (r # rs) G =
     (case types (typeId r) of
        None \<Rightarrow> Inl KeyError
      | Some name \<Rightarrow>
          create_relationships types rs
            (add_edge (sourceId r) (destinationId r)
               \<lparr>group = relationshipGroup r, type_name = name, type_id = typeId r\<rparr> G))"

text \<open>
  The body of the loop over the concepts: the node attributes of one concept from its
  rows, and the synonym named in the printed message when it has no FSN row.
\<close>

definition concept_node :: "description_row list \<Rightarrow> error + (node_attrs \<times> string list)" where
  "concept_node rows =
     (let synonyms = map term_text (filter (\<lambda>row. typeId row \<noteq> fsn_typeId) rows)
      in case map term_text (filter (\<lambda>row. typeId row = fsn_typeId) rows) of
           f # _ \<Rightarrow> Inr (\<lparr>fsn = f, synonyms = synonyms\<rparr>, [])
         | [] \<Rightarrow>
             (case synonyms of
                [] \<Rightarrow> Inl IndexError
              | f # rest \<Rightarrow> Inr (\<lparr>fsn = f, synonyms = rest\<rparr>, [f])))"

text \<open>
  The loop over \<^verbatim>\<open>concepts_df.groupby(concepts_df.index)\<close>; the second component collects
  the printed messages \<^verbatim>\<open>Concept with SCTID ... has no FSN. Using synonym ... instead.\<close> as
  pairs of concept and synonym.
\<close>

fun add_concepts ::
  "description_row list \<Rightarrow> int list \<Rightarrow> DiGraph \<times> (int \<times> string) list \<Rightarrow>
     error + DiGraph \<times> (int \<times> string) list" where
  "add_concepts df [] (G, out) = Inr (G, out)"
| "add_concepts df (c # cs) (G, out) =
     (case concept_node (filter (\<lambda>d. conceptId d = c) df) of
        Inl e \<Rightarrow> Inl e
      | Inr (attrs, warned) \<Rightarrow>
          add_concepts df cs (add_node c attrs G, out @ map (Pair c) warned))"

text \<open>
  \<^verbatim>\<open>from_rf2\<close>, from the two tables to the graph and the printed messages.  The groups of
  \<^verbatim>\<open>groupby\<close> come in ascending order of the concept identifier.
\<close>

definition from_rf2 ::
  "relationship_row list \<Rightarrow> description_row list \<Rightarrow> error + DiGraph \<times> (int \<times> string) list" where
  "from_rf2 relationship_rows description_rows =
     (let relationships_df = active_rows relationship_rows;
          concepts_df = active_rows description_rows
      in case relationship_types relationships_df concepts_df of
           Inl e \<Rightarrow> Inl e
         | Inr types \<Rightarrow>
             (case create_relationships types relationships_df \<lparr>nodes = [], edges = []\<rparr> of
                Inl e \<Rightarrow> Inl e
              | Inr G \<Rightarrow>
                  (case add_concepts concepts_df (sort (remdups (map conceptId concepts_df)))
                          (G, []) of
                     Inl e \<Rightarrow> Inl e
                   | Inr (G', out) \<Rightarrow> Inr (remove_isolates G', out))))"

section \<open>Example graphs\<close>

text \<open>
  A hierarchy of three concepts: 1 is a 2, 2 is a root.
\<close>

definition isa_attrs :: edge_attrs where
  "isa_attrs = \<lparr>group = 0, type_name = ''Is a (attribute)'', type_id = 116680003\<rparr>"

definition g3 :: DiGraph where
  "g3 = \<lparr>nodes = [(1, Some \<lparr>fsn = ''A (finding)'', synonyms = [''a'']\<rparr>),
                  (2, Some \<lparr>fsn = ''B (finding)'', synonyms = []\<rparr>),
                  (138875005, Some \<lparr>fsn = ''SNOMED CT Concept'', synonyms = []\<rparr>)],
          edges = [((1, 2), isa_attrs), ((2, 138875005), isa_attrs)]\<rparr>"

definition concept_A :: SnomedConceptDetails where
  "concept_A = \<lparr>fsn = ''A (finding)'', synonyms = [''a''], sctid = 1\<rparr>"

definition concept_B :: SnomedConceptDetails where
  "concept_B = \<lparr>fsn = ''B (finding)'', synonyms = [], sctid = 2\<rparr>"

text \<open>
  A concept with one \<^verbatim>\<open>is a\<close> edge and three other outgoing edges, in groups 2, 1 and 2.
\<close>

definition g5 :: DiGraph where
  "g5 = \<lparr>nodes = [(10, Some \<lparr>fsn = ''Fracture of femur (disorder)'', synonyms = []\<rparr>),
                  (11, Some \<lparr>fsn = ''Bone structure of femur (body structure)'', synonyms = []\<rparr>),
                  (12, Some \<lparr>fsn = ''Fracture of lower limb (disorder)'', synonyms = []\<rparr>),
                  (13, Some \<lparr>fsn = ''Fracture (morphologic abnormality)'', synonyms = []\<rparr>),
                  (14, Some \<lparr>fsn = ''Traumatic event (event)'', synonyms = []\<rparr>)],
          edges = [((10, 11), \<lparr>group = 2, type_name = ''Finding site (attribute)'', type_id = 363698007\<rparr>),
                   ((10, 12), isa_attrs),
                   ((10, 13), \<lparr>group = 1, type_name = ''Associated morphology (attribute)'', type_id = 116676008\<rparr>),
                   ((10, 14), \<lparr>group = 2, type_name = ''Due to (attribute)'', type_id = 42752001\<rparr>)]\<rparr>"

definition rel_10_11 :: SnomedRelationship where
  "rel_10_11 = \<lparr>group = 2, type_name = ''Finding site (attribute)'', type_id = 363698007,
     src = \<lparr>fsn = ''Fracture of femur (disorder)'', synonyms = [], sctid = 10\<rparr>,
     tgt = \<lparr>fsn = ''Bone structure of femur (body structure)'', synonyms = [], sctid = 11\<rparr>\<rparr>"

definition rel_10_12 :: SnomedRelationship where
  "rel_10_12 = \<lparr>group = 0, type_name = ''Is a (attribute)'', type_id = 116680003,
     src = \<lparr>fsn = ''Fracture of femur (disorder)'', synonyms = [], sctid = 10\<rparr>,
     tgt = \<lparr>fsn = ''Fracture of lower limb (disorder)'', synonyms = [], sctid = 12\<rparr>\<rparr>"

definition rel_10_13 :: SnomedRelationship where
  "rel_10_13 = \<lparr>group = 1, type_name = ''Associated morphology (attribute)'', type_id = 116676008,
     src = \<lparr>fsn = ''Fracture of femur (disorder)'', synonyms = [], sctid = 10\<rparr>,
     tgt = \<lparr>fsn = ''Fracture (morphologic abnormality)'', synonyms = [], sctid = 13\<rparr>\<rparr>"

definition rel_10_14 :: SnomedRelationship where
  "rel_10_14 = \<lparr>group = 2, type_name = ''Due to (attribute)'', type_id = 42752001,
     src = \<lparr>fsn = ''Fracture of femur (disorder)'', synonyms = [], sctid = 10\<rparr>,
     tgt = \<lparr>fsn = ''Traumatic event (event)'', synonyms = [], sctid = 14\<rparr>\<rparr>"

text \<open>
  A chain of \<open>n\<close> \<^verbatim>\<open>is a\<close> edges over the concepts \<open>0, \<dots>, n\<close>: concept \<open>i\<close> is a
  concept \<open>i + 1\<close>.  No concept of it is the root concept when \<open>n\<close> is below the root's
  identifier.
\<close>

definition chain_attrs :: node_attrs where
  "chain_attrs = \<lparr>fsn = ''Link (finding)'', synonyms = []\<rparr>"

definition chain_graph :: "int \<Rightarrow> DiGraph" where
  "chain_graph n =
     \<lparr>nodes = map (\<lambda>i. (i, Some chain_attrs)) [0..n],
      edges = map (\<lambda>i. ((i, i + 1), isa_attrs)) [0..n - 1]\<rparr>"

definition chain_concept :: "int \<Rightarrow> SnomedConceptDetails" where
  "chain_concept i = \<lparr>fsn = ''Link (finding)'', synonyms = [], sctid = i\<rparr>"

text \<open>
  A small release: two active rows for the pair (1, 2) with different types, an inactive
  row, a concept (2) whose only active rows are synonyms, and a concept (4) that no
  relationship mentions.
\<close>

definition rel_row :: "int \<Rightarrow> int \<Rightarrow> int \<Rightarrow> int \<Rightarrow> int \<Rightarrow> relationship_row" where
  "rel_row a s d g t =
     \<lparr>active = a, typeId = t, sourceId = s, destinationId = d, relationshipGroup = g\<rparr>"

definition desc_row :: "int \<Rightarrow> int \<Rightarrow> int \<Rightarrow> string \<Rightarrow> description_row" where
  "desc_row a c t s = \<lparr>active = a, typeId = t, conceptId = c, term_text = s\<rparr>"

definition release_relationships :: "relationship_row list" where
  "release_relationships =
     [rel_row 1 1 2 0 116680003,
      rel_row 0 1 3 0 116680003,
      rel_row 1 1 2 1 363698007,
      rel_row 1 2 138875005 0 116680003]"

definition release_descriptions :: "description_row list" where
  "release_descriptions =
     [desc_row 1 116680003 900000000000003001 ''Is a (attribute)'',
      desc_row 1 116680003 900000000000013009 ''Is a'',
      desc_row 1 363698007 900000000000003001 ''Finding site (attribute)'',
      desc_row 1 2 900000000000013009 ''Femur'',
      desc_row 1 1 900000000000013009 ''Broken femur'',
      desc_row 1 1 900000000000003001 ''Fracture of femur (disorder)'',
      desc_row 0 2 900000000000003001 ''Bone structure of femur (body structure)'',
      desc_row 1 2 900000000000013009 ''Thigh bone'',
      desc_row 1 4 900000000000013009 ''Unused'',
      desc_row 1 138875005 900000000000003001 ''SNOMED CT Concept (SNOMED RT+CTV3)'']"



definition release_graph :: DiGraph where
  "release_graph =
     \<lparr>nodes = [(1, Some \<lparr>fsn = ''Fracture of femur (disorder)'', synonyms = [''Broken femur'']\<rparr>),
               (2, Some \<lparr>fsn = ''Femur'', synonyms = [''Thigh bone'']\<rparr>),
               (138875005,
                Some \<lparr>fsn = ''SNOMED CT Concept (SNOMED RT+CTV3)'', synonyms = []\<rparr>)],
      edges = [((1, 2),
                \<lparr>group = 1, type_name = ''Finding site (attribute)'', type_id = 363698007\<rparr>),
               ((2, 138875005),
                \<lparr>group = 0, type_name = ''Is a (attribute)'', type_id = 116680003\<rparr>)]\<rparr>"

text \<open>
  A release whose only relationship type has a synonym row and no FSN row.
\<close>

definition unnamed_type_relationships :: "relationship_row list" where
  "unnamed_type_relationships = [rel_row 1 1 2 0 116680003]"

definition unnamed_type_descriptions :: "description_row list" where
  "unnamed_type_descriptions =
     [desc_row 1 116680003 900000000000013009 ''Is a'',
      desc_row 1 1 900000000000003001 ''Fracture of femur (disorder)'',
      desc_row 1 2 900000000000003001 ''Fracture of lower limb (disorder)'']"

text \<open>
  A release with a relationship to a concept (3) that has no active description row, and
  the graph \<^verbatim>\<open>from_rf2\<close> builds from it: the node 3, created by \<^verbatim>\<open>add_edge\<close>, has an empty
  attribute dictionary.
\<close>

definition undescribed_relationships :: "relationship_row list" where
  "undescribed_relationships = [rel_row 1 1 3 0 116680003]"

definition undescribed_descriptions :: "description_row list" where
  "undescribed_descriptions =
     [desc_row 1 116680003 900000000000003001 ''Is a (attribute)'',
      desc_row 1 1 900000000000003001 ''Fracture of femur (disorder)'']"

definition undescribed_graph :: DiGraph where
  "undescribed_graph =
     \<lparr>nodes = [(1, Some \<lparr>fsn = ''Fracture of femur (disorder)'', synonyms = []\<rparr>), (3, None)],
      edges = [((1, 3), isa_attrs)]\<rparr>"

text \<open>
  A graph with four simple paths from concept 1 to the root: one of three \<^verbatim>\<open>is a\<close> edges
  found first, two of two \<^verbatim>\<open>is a\<close> edges, and one through an edge of another type.
\<close>

definition g_diamond :: DiGraph where
  "g_diamond =
     \<lparr>nodes = map (\<lambda>i. (i, Some chain_attrs)) [1, 2, 3, 4, 5, 138875005],
      edges = [((1, 2), isa_attrs), ((1, 3), isa_attrs), ((2, 4), isa_attrs),
               ((4, 138875005), isa_attrs), ((3, 138875005), isa_attrs), ((2, 138875005), isa_attrs),
               ((1, 5), \<lparr>group = 1, type_name = ''Finding site (attribute)'', type_id = 363698007\<rparr>),
               ((5, 138875005), isa_attrs), ((3, 1), isa_attrs)]\<rparr>"

definition diamond_path :: "SnomedRelationship list" where
  "diamond_path =
     [\<lparr>group = 0, type_name = ''Is a (attribute)'', type_id = 116680003,
        src = chain_concept 1, tgt = chain_concept 2\<rparr>,
      \<lparr>group = 0, type_name = ''Is a (attribute)'', type_id = 116680003,
        src = chain_concept 2, tgt = chain_concept 138875005\<rparr>]"

text \<open>A cycle 1, 2, 3 whose edges have three types.\<close>

definition g_cycle :: DiGraph where
  "g_cycle =
     \<lparr>nodes = map (\<lambda>i. (i, Some chain_attrs)) [1, 2, 3],
      edges = [((1, 2), isa_attrs),
               ((2, 3), \<lparr>group = 1, type_name = ''Part of (attribute)'', type_id = 123005000\<rparr>),
               ((3, 1), \<lparr>group = 1, type_name = ''Has part (attribute)'', type_id = 999\<rparr>)]\<rparr>"

text \<open>The relationships along the paths of the examples.\<close>

definition g3_path :: "SnomedRelationship list" where
  "g3_path =
     [\<lparr>group = 0, type_name = ''Is a (attribute)'', type_id = 116680003,
        src = concept_A, tgt = concept_B\<rparr>,
      \<lparr>group = 0, type_name = ''Is a (attribute)'', type_id = 116680003,
        src = concept_B,
        tgt = \<lparr>fsn = ''SNOMED CT Concept'', synonyms = [], sctid = 138875005\<rparr>\<rparr>]"

definition cycle_forward :: "SnomedRelationship list" where
  "cycle_forward =
     [\<lparr>group = 0, type_name = ''Is a (attribute)'', type_id = 116680003,
        src = chain_concept 1, tgt = chain_concept 2\<rparr>]"

definition cycle_back :: "SnomedRelationship list" where
  "cycle_back =
     [\<lparr>group = 1, type_name = ''Part of (attribute)'', type_id = 123005000,
        src = chain_concept 2, tgt = chain_concept 3\<rparr>,
      \<lparr>group = 1, type_name = ''Has part (attribute)'', type_id = 999,
        src = chain_concept 3, tgt = chain_concept 1\<rparr>]"

section \<open>Termination of the traversals\<close>

lemma get_descendants_total: "All get_descendants_dom"
  by (relation "measure (\<lambda>(G, c, s). nat (steps_value s))") (auto simp: steps_value_def)

lemma get_ancestors_total: "All get_ancestors_dom"
  by (relation "measure (\<lambda>(G, c, s). nat (steps_value s))") (auto simp: steps_value_def)

lemma get_neighbourhood_total: "All get_neighbourhood_dom"
  by (relation "measure (\<lambda>(G, c, s). nat s)") auto

lemma descendants_call_eq: "descendants_call = get_descendants_rel"
  by (rule ext)+ (simp add: descendants_call_def)

lemma ancestors_call_eq: "ancestors_call = get_ancestors_rel"
  by (rule ext)+ (simp add: ancestors_call_def)

lemma neighbourhood_call_eq: "neighbourhood_call = get_neighbourhood_rel"
  by (rule ext)+ (simp add: neighbourhood_call_def)

text \<open>
  What the call relations are: a call with a valid depth greater than 1 whose parents
  (children, neighbours) could be read calls itself on concepts with the depth reduced by
  one; an unset depth counts as 99999.
\<close>

lemma ancestors_call_iff:
  "ancestors_call callee caller \<longleftrightarrow>
     (\<exists>G c s parents (p::SnomedConceptDetails).
        caller = (G, c, s) \<and> callee = (G, sctid p, Some (steps_value s - 1)) \<and>
        \<not> (s \<noteq> None \<and> steps_value s \<le> 0) \<and> get_parents G c = Inr parents \<and>
        1 < steps_value s)"
proof
  assume "ancestors_call callee caller"
  then have "get_ancestors_rel callee caller" by (simp add: ancestors_call_def)
  then show "\<exists>G c s parents (p::SnomedConceptDetails).
        caller = (G, c, s) \<and> callee = (G, sctid p, Some (steps_value s - 1)) \<and>
        \<not> (s \<noteq> None \<and> steps_value s \<le> 0) \<and> get_parents G c = Inr parents \<and>
        1 < steps_value s"
    by cases blast
next
  assume "\<exists>G c s parents (p::SnomedConceptDetails).
        caller = (G, c, s) \<and> callee = (G, sctid p, Some (steps_value s - 1)) \<and>
        \<not> (s \<noteq> None \<and> steps_value s \<le> 0) \<and> get_parents G c = Inr parents \<and>
        1 < steps_value s"
  then obtain G c s parents and p :: SnomedConceptDetails where
    "caller = (G, c, s)" "callee = (G, sctid p, Some (steps_value s - 1))"
    "\<not> (s \<noteq> None \<and> steps_value s \<le> 0)" "get_parents G c = Inr parents" "1 < steps_value s"
    by blast
  then show "ancestors_call callee caller"
    unfolding ancestors_call_def using get_ancestors_rel.intros [of s G c parents p] by simp
qed

lemma descendants_call_iff:
  "descendants_call callee caller \<longleftrightarrow>
     (\<exists>G c s children (ch::SnomedConceptDetails).
        caller = (G, c, s) \<and> callee = (G, sctid ch, Some (steps_value s - 1)) \<and>
        \<not> (s \<noteq> None \<and> steps_value s \<le> 0) \<and> get_children G c = Inr children \<and>
        1 < steps_value s)"
proof
  assume "descendants_call callee caller"
  then have "get_descendants_rel callee caller" by (simp add: descendants_call_def)
  then show "\<exists>G c s children (ch::SnomedConceptDetails).
        caller = (G, c, s) \<and> callee = (G, sctid ch, Some (steps_value s - 1)) \<and>
        \<not> (s \<noteq> None \<and> steps_value s \<le> 0) \<and> get_children G c = Inr children \<and>
        1 < steps_value s"
    by cases blast
next
  assume "\<exists>G c s children (ch::SnomedConceptDetails).
        caller = (G, c, s) \<and> callee = (G, sctid ch, Some (steps_value s - 1)) \<and>
        \<not> (s \<noteq> None \<and> steps_value s \<le> 0) \<and> get_children G c = Inr children \<and>
        1 < steps_value s"
  then obtain G c s children and ch :: SnomedConceptDetails where
    "caller = (G, c, s)" "callee = (G, sctid ch, Some (steps_value s - 1))"
    "\<not> (s \<noteq> None \<and> steps_value s \<le> 0)" "get_children G c = Inr children" "1 < steps_value s"
    by blast
  then show "descendants_call callee caller"
    unfolding descendants_call_def using get_descendants_rel.intros [of s G c children ch] by simp
qed

lemma neighbourhood_call_iff:
  "neighbourhood_call callee caller \<longleftrightarrow>
     (\<exists>G c k parents children (n::SnomedConceptDetails).
        caller = (G, c, k) \<and> callee = (G, sctid n, k - 1) \<and> 0 < k \<and>
        get_parents G c = Inr parents \<and> get_children G c = Inr children \<and> 1 < k)"
proof
  assume "neighbourhood_call callee caller"
  then have "get_neighbourhood_rel callee caller" by (simp add: neighbourhood_call_def)
  then show "\<exists>G c k parents children (n::SnomedConceptDetails).
        caller = (G, c, k) \<and> callee = (G, sctid n, k - 1) \<and> 0 < k \<and>
        get_parents G c = Inr parents \<and> get_children G c = Inr children \<and> 1 < k"
    by cases blast
next
  assume "\<exists>G c k parents children (n::SnomedConceptDetails).
        caller = (G, c, k) \<and> callee = (G, sctid n, k - 1) \<and> 0 < k \<and>
        get_parents G c = Inr parents \<and> get_children G c = Inr children \<and> 1 < k"
  then obtain G c k parents children and n :: SnomedConceptDetails where
    "caller = (G, c, k)" "callee = (G, sctid n, k - 1)" "0 < k"
    "get_parents G c = Inr parents" "get_children G c = Inr children" "1 < k"
    by blast
  then show "neighbourhood_call callee caller"
    unfolding neighbourhood_call_def
    using get_neighbourhood_rel.intros [of k G c parents children n] by simp
qed

text \<open>
  Every recursive call is made with an explicit, positive depth that is smaller than the
  depth of the caller.
\<close>

lemma ancestors_call_decreases:
  "ancestors_call x y \<Longrightarrow>
     0 < steps_value (snd (snd x)) \<and> steps_value (snd (snd x)) < steps_value (snd (snd y))"
  by (auto simp: ancestors_call_iff steps_value_def)

lemma descendants_call_decreases:
  "descendants_call x y \<Longrightarrow>
     0 < steps_value (snd (snd x)) \<and> steps_value (snd (snd x)) < steps_value (snd (snd y))"
  by (auto simp: descendants_call_iff steps_value_def)

lemma neighbourhood_call_decreases:
  "neighbourhood_call x y \<Longrightarrow> 0 < snd (snd x) \<and> snd (snd x) < snd (snd y)"
  by (auto simp: neighbourhood_call_iff)

text \<open>
  C10.  For each of \<^verbatim>\<open>get_descendants\<close>, \<^verbatim>\<open>get_ancestors\<close> and \<^verbatim>\<open>get_neighbourhood\<close> the
  relation between a call and the recursive calls it makes is well-founded: there is no
  infinite chain of nested calls, on any graph (its \<^verbatim>\<open>is a\<close> edges may form cycles) and
  from any depth argument, so every call terminates.  The proof measures a call by its
  remaining depth, 99999 for an unset depth.
\<close>

theorem traversals_terminate:
  "wfp descendants_call \<and> wfp ancestors_call \<and> wfp neighbourhood_call"
  unfolding descendants_call_eq ancestors_call_eq neighbourhood_call_eq
  using get_descendants_total get_ancestors_total get_neighbourhood_total
  by (simp add: wfp_iff_accp)

section \<open>Validation of the depth argument\<close>

text \<open>
  C8.  For every graph and every concept identifier, \<^verbatim>\<open>get_ancestors\<close>,
  \<^verbatim>\<open>get_descendants\<close> and \<^verbatim>\<open>get_neighbourhood\<close> called with an explicitly supplied depth
  that is less than or equal to 0 raise \<^verbatim>\<open>AssertionError\<close>: the check is the first thing
  each of them does, before any node or edge is read, so no partial result is produced.
\<close>

theorem nonpositive_depth_rejected:
  "k \<le> 0 \<Longrightarrow>
     get_ancestors G c (Some k) = Inl AssertionError \<and>
     get_descendants G c (Some k) = Inl AssertionError \<and>
     get_neighbourhood G c k = Inl AssertionError"
  by (simp add: steps_value_def get_ancestors.simps get_descendants.simps get_neighbourhood.simps)

theorem nonpositive_depth_rejected_witness:
  "(0::int) \<le> 0 \<and>
     get_ancestors g3 1 (Some 0) = Inl AssertionError \<and>
     get_descendants g3 1 (Some 0) = Inl AssertionError \<and>
     get_neighbourhood g3 1 0 = Inl AssertionError"
  using nonpositive_depth_rejected [of 0 g3 1] by simp

section \<open>The root and the query concept are left out\<close>

text \<open>
  C4.  Whenever \<^verbatim>\<open>get_ancestors\<close> returns, no element of its result has the identifier of
  the root concept; whenever \<^verbatim>\<open>get_neighbourhood\<close> returns, no element of its result has
  the identifier of the root concept or of the query concept.  This holds for every graph,
  every concept and every depth argument.
\<close>

theorem root_and_self_excluded:
  "(get_ancestors G c s = Inr A \<longrightarrow> (\<forall>a\<in>A. sctid a \<noteq> root_concept_id)) \<and>
   (get_neighbourhood G c' k = Inr N \<longrightarrow>
      (\<forall>n\<in>N. sctid n \<noteq> root_concept_id \<and> sctid n \<noteq> c'))"
proof
  show "get_ancestors G c s = Inr A \<longrightarrow> (\<forall>a\<in>A. sctid a \<noteq> root_concept_id)"
    by (subst get_ancestors.simps) (auto split: if_splits sum.splits)
  show "get_neighbourhood G c' k = Inr N \<longrightarrow>
          (\<forall>n\<in>N. sctid n \<noteq> root_concept_id \<and> sctid n \<noteq> c')"
    by (subst get_neighbourhood.simps) (auto split: if_splits sum.splits)
qed

lemma g3_ancestors: "get_ancestors g3 1 None = Inr {concept_B}"
  by code_simp

lemma g3_neighbourhood: "get_neighbourhood g3 2 2 = Inr {concept_A}"
  by code_simp

theorem root_and_self_excluded_witness:
  "get_ancestors g3 1 None = Inr {concept_B} \<and>
   get_neighbourhood g3 2 2 = Inr {concept_A} \<and>
   sctid concept_B \<noteq> root_concept_id \<and>
   sctid concept_A \<noteq> root_concept_id \<and> sctid concept_A \<noteq> 2"
  using root_and_self_excluded [of g3 1 None "{concept_B}" 2 2 "{concept_A}"]
    g3_ancestors g3_neighbourhood by simp

section \<open>Relationship groups of a concept\<close>

lemma groupby_concat: "concat (map snd (groupby f xs)) = xs"
  by (induction f xs rule: groupby.induct) simp_all

lemma groupby_members:
  "(k, ys) \<in> set (groupby f xs) \<Longrightarrow> ys \<noteq> [] \<and> (\<forall>y\<in>set ys. f y = k) \<and> set ys \<subseteq> set xs"
proof (induction f xs rule: groupby.induct)
  case (1 key)
  then show ?case by simp
next
  case (2 key x xs)
  from "2.prems" consider "(k, ys) = (key x, x # takeWhile (\<lambda>y. key y = key x) xs)"
    | "(k, ys) \<in> set (groupby key (dropWhile (\<lambda>y. key y = key x) xs))" by auto
  then show ?case
  proof cases
    case 1
    then show ?thesis by (auto dest: set_takeWhileD)
  next
    case 2
    from "2.IH" [OF 2] show ?thesis by (auto dest: set_dropWhileD)
  qed
qed

lemma dropWhile_sorted_above:
  fixes f :: "'a \<Rightarrow> 'k::linorder"
  shows "sorted (map f xs) \<Longrightarrow> \<forall>y\<in>set xs. a \<le> f y \<Longrightarrow>
         \<forall>y\<in>set (dropWhile (\<lambda>y. f y = a) xs). a < f y"
proof (induction xs)
  case Nil
  then show ?case by simp
next
  case (Cons x xs)
  show ?case
  proof (cases "f x = a")
    case True
    with Cons show ?thesis by simp
  next
    case False
    with Cons.prems have "a < f x" by auto
    with Cons.prems show ?thesis using False by fastforce
  qed
qed

lemma filter_split_while:
  "filter P (takeWhile Q xs) @ filter P (dropWhile Q xs) = filter P xs"
  by (simp flip: filter_append)

lemma groupby_sorted:
  fixes f :: "'a \<Rightarrow> 'k::linorder"
  assumes "sorted (map f xs)"
  shows "sorted_wrt (<) (map fst (groupby f xs)) \<and>
         (\<forall>(k, ys)\<in>set (groupby f xs). ys = filter (\<lambda>y. f y = k) xs)"
  using assms
proof (induction f xs rule: groupby.induct)
  case (1 key)
  then show ?case by simp
next
  case (2 key x xs)
  let ?tw = "takeWhile (\<lambda>y. key y = key x) xs"
  let ?dw = "dropWhile (\<lambda>y. key y = key x) xs"
  from "2.prems" have sxs: "sorted (map key xs)" and lo: "\<forall>y\<in>set xs. key x \<le> key y" by auto
  have above: "\<forall>y\<in>set ?dw. key x < key y"
    by (rule dropWhile_sorted_above [OF sxs lo])
  have sdw: "sorted (map key ?dw)"
  proof -
    have "sorted (map key (?tw @ ?dw))" using sxs by simp
    then show ?thesis by (simp only: map_append sorted_append)
  qed
  note IH = "2.IH" [OF sdw]
  have keys_above: "key x < k" if "(k, ys) \<in> set (groupby key ?dw)" for k ys
  proof -
    from groupby_members [OF that] obtain y where "y \<in> set ?dw" "key y = k"
      by (cases ys) auto
    with above show ?thesis by auto
  qed
  have ftw: "filter (\<lambda>y. key y = key x) ?tw = ?tw"
    by (simp add: filter_id_conv) (auto dest: set_takeWhileD)
  have fdw: "filter (\<lambda>y. key y = key x) ?dw = []"
    using above by (auto simp: filter_empty_conv)
  have "filter (\<lambda>y. key y = key x) xs = ?tw"
    using filter_split_while [of "\<lambda>y. key y = key x" "\<lambda>y. key y = key x" xs]
    unfolding ftw fdw append_Nil2 by (rule sym)
  then have first: "filter (\<lambda>y. key y = key x) (x # xs) = x # ?tw"
    by simp
  have rest: "ys = filter (\<lambda>y. key y = k) (x # xs)" if m: "(k, ys) \<in> set (groupby key ?dw)" for k ys
  proof -
    from keys_above [OF m] have kx: "key x < k" .
    from IH m have ys: "ys = filter (\<lambda>y. key y = k) ?dw" by auto
    have e: "filter (\<lambda>y. key y = k) ?tw = []"
      using kx by (auto simp: filter_empty_conv dest!: set_takeWhileD)
    have a: "filter (\<lambda>y. key y = k) xs = filter (\<lambda>y. key y = k) ?dw"
      using filter_split_while [of "\<lambda>y. key y = k" "\<lambda>y. key y = key x" xs]
      unfolding e append_Nil by (rule sym)
    have b: "filter (\<lambda>y. key y = k) (x # xs) = filter (\<lambda>y. key y = k) xs"
      using kx by simp
    show ?thesis by (simp only: ys a b)
  qed
  have "sorted_wrt (<) (map fst (groupby key (x # xs)))"
    using IH keys_above by auto
  moreover have "\<forall>(k, ys)\<in>set (groupby key (x # xs)). ys = filter (\<lambda>y. key y = k) (x # xs)"
    using first rest by auto
  ultimately show ?case by blast
qed

lemma mapM_Inr: "mapM f xs = Inr ys \<Longrightarrow> list_all2 (\<lambda>x y. f x = Inr y) xs ys"
  by (induction xs arbitrary: ys) (auto split: sum.splits)

lemma get_concept_details_sctid: "get_concept_details G c = Inr d \<Longrightarrow> sctid d = c"
  by (auto simp: get_concept_details_def split: option.splits)

lemma get_concept_details_by_id:
  assumes "get_concept_details G c = Inr d" and "get_concept_details G c' = Inr d'"
    and "sctid d = sctid d'"
  shows "d = d'"
proof -
  from assms have "c = c'" by (simp add: get_concept_details_sctid)
  with assms(1,2) show ?thesis by simp
qed

lemma get_out_relationships_edges:
  assumes "get_out_relationships G c = Inr rs"
  shows "list_all2 (\<lambda>e r. rel_edge r = e \<and> fst e = c \<and>
            get_concept_details G (fst e) = Inr (src r) \<and>
            get_concept_details G (snd e) = Inr (tgt r) \<and>
            edge_vals G e = Inr \<lparr>group = group r, type_name = type_name r, type_id = type_id r\<rparr>)
          (out_edges G c) rs"
proof -
  from assms obtain s where s: "get_concept_details G c = Inr s"
    and m: "mapM (\<lambda>(_, tgt_sctid).
                  case get_concept_details G tgt_sctid of
                    Inl e \<Rightarrow> Inl e
                  | Inr t \<Rightarrow>
                      (case edge_vals G (c, tgt_sctid) of
                         Inl e \<Rightarrow> Inl e
                       | Inr vals \<Rightarrow> Inr (make_relationship s t vals)))
               (out_edges G c) = Inr rs"
    by (auto simp: get_out_relationships_def split: sum.splits)
  have fst_c: "\<forall>e\<in>set (out_edges G c). fst e = c" by (simp add: out_edges_def)
  show ?thesis
  proof (rule list.rel_mono_strong [OF mapM_Inr [OF m]])
    fix e r
    assume e: "e \<in> set (out_edges G c)"
      and r: "(case e of (_, tgt_sctid) \<Rightarrow>
                  case get_concept_details G tgt_sctid of
                    Inl e \<Rightarrow> Inl e
                  | Inr t \<Rightarrow>
                      (case edge_vals G (c, tgt_sctid) of
                         Inl e \<Rightarrow> Inl e
                       | Inr vals \<Rightarrow> Inr (make_relationship s t vals))) = Inr r"
    from e fst_c have "fst e = c" by blast
    then obtain v where ev: "e = (c, v)" by (cases e) simp
    from r ev obtain t vals where t: "get_concept_details G v = Inr t"
      and vals: "edge_vals G (c, v) = Inr vals" and rr: "r = make_relationship s t vals"
      by (auto split: sum.splits)
    from get_concept_details_sctid [OF s] get_concept_details_sctid [OF t]
    show "rel_edge r = e \<and> fst e = c \<and>
            get_concept_details G (fst e) = Inr (src r) \<and>
            get_concept_details G (snd e) = Inr (tgt r) \<and>
            edge_vals G e = Inr \<lparr>group = group r, type_name = type_name r, type_id = type_id r\<rparr>"
      by (simp add: ev rr make_relationship_def rel_edge_def s t vals)
  qed
qed


text \<open>
  What \<^verbatim>\<open>get_inferred_relationships(id)\<close> makes of the relationships \<open>rs\<close> that
  \<^verbatim>\<open>__get_out_relationships(id)\<close> yields, one per outgoing edge in edge order: the
  relationships of all groups together are the members of \<open>rs\<close> that are not \<^verbatim>\<open>is a\<close>, the
  group numbers are strictly ascending, and every group is not empty and holds the
  relationships of \<open>rs\<close> that are not \<^verbatim>\<open>is a\<close> and have its group number, in the order in
  which they occur in \<open>rs\<close>.
\<close>

lemma inferred_groups:
  assumes "get_inferred_relationships G c = Inr gs"
  shows "\<exists>rs. get_out_relationships G c = Inr rs \<and>
           mset (concat (map relationships gs)) =
             mset (filter (\<lambda>r. type_id r \<noteq> is_a_relationship_typeId) rs) \<and>
           sorted_wrt (<) (map group_no gs) \<and>
           (\<forall>g\<in>set gs. relationships g \<noteq> [] \<and>
              relationships g =
                filter (\<lambda>r. group r = group_no g)
                  (filter (\<lambda>r. type_id r \<noteq> is_a_relationship_typeId) rs))"
proof -
  from assms obtain rs where rs: "get_out_relationships G c = Inr rs"
    by (auto simp: get_inferred_relationships_def split: sum.splits)
  define inferred where "inferred = filter (\<lambda>r. type_id r \<noteq> is_a_relationship_typeId) rs"
  define grouped where "grouped = groupby group (sort_key group inferred)"
  from assms rs have gs: "gs = map (\<lambda>(g, r). SnomedRelationshipGroup g r) grouped"
    by (simp add: get_inferred_relationships_def inferred_def grouped_def)
  have rel: "map relationships gs = map snd grouped"
    and grp: "map group_no gs = map fst grouped"
    by (simp_all add: gs case_prod_beta)
  have "concat (map relationships gs) = sort_key group inferred"
    by (simp only: rel grouped_def groupby_concat)
  then have all: "mset (concat (map relationships gs)) = mset inferred"
    by simp
  have sorted: "sorted (map group (sort_key group inferred))"
    by (rule sorted_sort_key)
  note gb = groupby_sorted [OF sorted, folded grouped_def]
  from gb have asc: "sorted_wrt (<) (map group_no gs)"
    by (simp add: grp)
  have each: "relationships g \<noteq> [] \<and>
      relationships g = filter (\<lambda>r. group r = group_no g) inferred" if "g \<in> set gs" for g
  proof -
    from that gs obtain k ys where m: "(k, ys) \<in> set grouped"
      and g: "g = SnomedRelationshipGroup k ys" by auto
    from gb m have "ys = filter (\<lambda>r. group r = k) (sort_key group inferred)" by auto
    then have "ys = filter (\<lambda>r. group r = k) inferred"
      by (simp only: sort_key_stable)
    moreover from groupby_members [OF m [unfolded grouped_def]] have "ys \<noteq> []" by simp
    ultimately show ?thesis by (simp add: g)
  qed
  from rs all asc each show ?thesis
    unfolding inferred_def by blast
qed

text \<open>
  When the call returns: a node is described exactly when its details can be built, and
  \<^verbatim>\<open>__get_out_relationships(id)\<close> yields all its relationships exactly when \<open>id\<close> and the
  targets of its outgoing edges are described.
\<close>

lemma described_iff: "described G n \<longleftrightarrow> (\<exists>d. get_concept_details G n = Inr d)"
  by (auto simp: described_def get_concept_details_def split: option.splits)

lemma mapM_total: "\<forall>x\<in>set xs. \<exists>y. f x = Inr y \<Longrightarrow> \<exists>ys. mapM f xs = Inr ys"
  by (induction xs) auto

lemma list_all2_left:
  "list_all2 R xs ys \<Longrightarrow> x \<in> set xs \<Longrightarrow> \<exists>y\<in>set ys. R x y"
  by (induction rule: list_all2_induct) auto

lemma list_all2_filter:
  assumes "list_all2 R xs ys" and "\<And>x y. R x y \<Longrightarrow> P x \<longleftrightarrow> Q y"
  shows "list_all2 R (filter P xs) (filter Q ys)"
  using assms(1)
proof (induction rule: list_all2_induct)
  case Nil
  show ?case by simp
next
  case (Cons x xs y ys)
  from assms(2) [OF Cons.hyps(1)] Cons.hyps(1) Cons.IH show ?case by simp
qed

lemma out_edge_vals:
  assumes "e \<in> set (out_edges G c)"
  shows "\<exists>v a. e = (c, v) \<and> edge_vals G (c, v) = Inr a"
proof -
  from assms have k: "e \<in> fst ` set (edges G)" and c: "fst e = c"
    by (auto simp: out_edges_def)
  from k have "map_of (edges G) e \<noteq> None" by (simp only: map_of_eq_None_iff not_not)
  then obtain a where "edge_vals G e = Inr a" by (auto simp: edge_vals_def)
  with c show ?thesis by (cases e) auto
qed

lemma get_out_relationships_total:
  assumes "described G c" and "\<forall>e\<in>set (out_edges G c). described G (snd e)"
  shows "\<exists>rs. get_out_relationships G c = Inr rs"
proof -
  from assms(1) obtain s where s: "get_concept_details G c = Inr s"
    by (auto simp: described_iff)
  let ?f = "\<lambda>(_, tgt_sctid).
                  case get_concept_details G tgt_sctid of
                    Inl e \<Rightarrow> Inl e
                  | Inr t \<Rightarrow>
                      (case edge_vals G (c, tgt_sctid) of
                         Inl e \<Rightarrow> Inl e
                       | Inr vals \<Rightarrow> Inr (make_relationship s t vals))"
  have "\<exists>r. ?f e = Inr r" if e: "e \<in> set (out_edges G c)" for e
  proof -
    from out_edge_vals [OF e] obtain v a where ev: "e = (c, v)" and a: "edge_vals G (c, v) = Inr a"
      by blast
    from assms(2) e ev obtain t where "get_concept_details G v = Inr t"
      by (auto simp: described_iff)
    with ev a show ?thesis by simp
  qed
  then have "\<exists>rs. mapM ?f (out_edges G c) = Inr rs"
    by (intro mapM_total) blast
  with s show ?thesis by (simp add: get_out_relationships_def)
qed

lemma get_out_relationships_described:
  assumes "get_out_relationships G c = Inr rs"
  shows "described G c \<and> (\<forall>e\<in>set (out_edges G c). described G (snd e))"
proof
  from assms show "described G c"
    by (auto simp: get_out_relationships_def described_iff split: sum.splits)
  show "\<forall>e\<in>set (out_edges G c). described G (snd e)"
  proof
    fix e assume "e \<in> set (out_edges G c)"
    from list_all2_left [OF get_out_relationships_edges [OF assms] this]
    obtain r :: SnomedRelationship where "get_concept_details G (snd e) = Inr (tgt r)"
      by blast
    then show "described G (snd e)" by (auto simp: described_iff)
  qed
qed

lemma is_relationship_inferred:
  "is_relationship G e r \<Longrightarrow>
     inferred_edge G k e \<longleftrightarrow> type_id r \<noteq> is_a_relationship_typeId \<and> group r = k"
  by (auto simp: is_relationship_def inferred_edge_def edge_vals_def split: option.splits)

text \<open>
  C5 (as amended).  Let \<open>id\<close> be a described node of the graph whose outgoing edges all lead
  to described nodes.  Then \<^verbatim>\<open>get_inferred_relationships(id)\<close> returns a list of groups
  such that: the group numbers are strictly ascending; every group is not empty and its
  relationships are, one for one and in the order of the outgoing edges of \<open>id\<close>, the
  relationships of those outgoing edges of \<open>id\<close> whose type is not \<^verbatim>\<open>is a\<close> and whose group
  number is the group's (each built from the source node, the target node and the
  attributes of its edge); every outgoing edge of \<open>id\<close> that is not \<^verbatim>\<open>is a\<close> has its group
  number among the groups; and no relationship of any group has the \<^verbatim>\<open>is a\<close> type.  For
  every other \<open>id\<close> the call raises an exception instead of returning.
\<close>

theorem inferred_relationships_grouped:
  "(described G c \<and> (\<forall>e\<in>set (out_edges G c). described G (snd e)) \<longrightarrow>
      (\<exists>gs. get_inferred_relationships G c = Inr gs \<and>
         sorted_wrt (<) (map group_no gs) \<and>
         (\<forall>g\<in>set gs. relationships g \<noteq> [] \<and>
            list_all2 (is_relationship G)
              (filter (inferred_edge G (group_no g)) (out_edges G c)) (relationships g)) \<and>
         (\<forall>e\<in>set (out_edges G c). \<forall>k. inferred_edge G k e \<longrightarrow> k \<in> group_no ` set gs) \<and>
         (\<forall>g\<in>set gs. \<forall>r\<in>set (relationships g). type_id r \<noteq> is_a_relationship_typeId))) \<and>
   (\<not> (described G c \<and> (\<forall>e\<in>set (out_edges G c). described G (snd e))) \<longrightarrow>
      isl (get_inferred_relationships G c))"
proof (intro conjI impI)
  assume d: "described G c \<and> (\<forall>e\<in>set (out_edges G c). described G (snd e))"
  then obtain rs where rs: "get_out_relationships G c = Inr rs"
    using get_out_relationships_total by blast
  then obtain gs where gs: "get_inferred_relationships G c = Inr gs"
    by (simp add: get_inferred_relationships_def Let_def)
  from inferred_groups [OF gs] rs have
    all: "mset (concat (map relationships gs)) =
             mset (filter (\<lambda>r. type_id r \<noteq> is_a_relationship_typeId) rs)"
    and asc: "sorted_wrt (<) (map group_no gs)"
    and each: "\<forall>g\<in>set gs. relationships g \<noteq> [] \<and>
              relationships g =
                filter (\<lambda>r. group r = group_no g)
                  (filter (\<lambda>r. type_id r \<noteq> is_a_relationship_typeId) rs)"
    by auto
  have rel: "list_all2 (is_relationship G) (out_edges G c) rs"
    by (rule list_all2_mono [OF get_out_relationships_edges [OF rs]])
      (unfold is_relationship_def, blast)
  have grp: "relationships g \<noteq> [] \<and>
      list_all2 (is_relationship G)
        (filter (inferred_edge G (group_no g)) (out_edges G c)) (relationships g)"
    if g: "g \<in> set gs" for g
  proof -
    from each g have ne: "relationships g \<noteq> []"
      and eq: "relationships g =
        filter (\<lambda>r. type_id r \<noteq> is_a_relationship_typeId \<and> group r = group_no g) rs"
      by (auto simp: conj_commute)
    have "list_all2 (is_relationship G)
        (filter (inferred_edge G (group_no g)) (out_edges G c))
        (filter (\<lambda>r. type_id r \<noteq> is_a_relationship_typeId \<and> group r = group_no g) rs)"
      by (rule list_all2_filter [OF rel]) (rule is_relationship_inferred)
    with ne eq show ?thesis by simp
  qed
  have cover: "k \<in> group_no ` set gs"
    if e: "e \<in> set (out_edges G c)" and k: "inferred_edge G k e" for e k
  proof -
    from list_all2_left [OF rel e] obtain r where r: "r \<in> set rs" and er: "is_relationship G e r"
      by blast
    from is_relationship_inferred [OF er, of k] k
    have t: "type_id r \<noteq> is_a_relationship_typeId" and gr: "group r = k" by simp_all
    from r t have "r \<in># mset (filter (\<lambda>r. type_id r \<noteq> is_a_relationship_typeId) rs)" by simp
    then have "r \<in> set (concat (map relationships gs))"
      by (simp only: all [symmetric] set_mset_mset)
    then obtain g where g: "g \<in> set gs" and rg: "r \<in> set (relationships g)" by auto
    from each g rg have "group r = group_no g" by auto
    with gr g show ?thesis by blast
  qed
  have noisa: "type_id r \<noteq> is_a_relationship_typeId"
    if "g \<in> set gs" "r \<in> set (relationships g)" for g r
    using each that by auto
  from gs asc grp cover noisa
  show "\<exists>gs. get_inferred_relationships G c = Inr gs \<and>
         sorted_wrt (<) (map group_no gs) \<and>
         (\<forall>g\<in>set gs. relationships g \<noteq> [] \<and>
            list_all2 (is_relationship G)
              (filter (inferred_edge G (group_no g)) (out_edges G c)) (relationships g)) \<and>
         (\<forall>e\<in>set (out_edges G c). \<forall>k. inferred_edge G k e \<longrightarrow> k \<in> group_no ` set gs) \<and>
         (\<forall>g\<in>set gs. \<forall>r\<in>set (relationships g). type_id r \<noteq> is_a_relationship_typeId)"
    by blast
next
  assume n: "\<not> (described G c \<and> (\<forall>e\<in>set (out_edges G c). described G (snd e)))"
  show "isl (get_inferred_relationships G c)"
  proof (rule ccontr)
    assume "\<not> isl (get_inferred_relationships G c)"
    then obtain gs where "get_inferred_relationships G c = Inr gs"
      by (cases "get_inferred_relationships G c") auto
    then obtain rs where "get_out_relationships G c = Inr rs"
      by (auto simp: get_inferred_relationships_def split: sum.splits)
    from get_out_relationships_described [OF this] n show False by blast
  qed
qed

lemma g5_inferred:
  "get_inferred_relationships g5 10 =
     Inr [SnomedRelationshipGroup 1 [rel_10_13], SnomedRelationshipGroup 2 [rel_10_11, rel_10_14]]"
  by code_simp

lemma g5_described:
  "described g5 10 \<and> (\<forall>e\<in>set (out_edges g5 10). described g5 (snd e))"
  by code_simp

lemma g5_out_edges: "out_edges g5 10 = [(10, 11), (10, 12), (10, 13), (10, 14)]"
  by code_simp

lemma g5_group_1: "filter (inferred_edge g5 1) (out_edges g5 10) = [(10, 13)]"
  by code_simp

lemma g5_group_2: "filter (inferred_edge g5 2) (out_edges g5 10) = [(10, 11), (10, 14)]"
  by code_simp

theorem inferred_relationships_grouped_witness:
  "described g5 10 \<and>
   out_edges g5 10 = [(10, 11), (10, 12), (10, 13), (10, 14)] \<and>
   get_inferred_relationships g5 10 =
     Inr [SnomedRelationshipGroup 1 [rel_10_13], SnomedRelationshipGroup 2 [rel_10_11, rel_10_14]] \<and>
   filter (inferred_edge g5 1) (out_edges g5 10) = [(10, 13)] \<and>
   filter (inferred_edge g5 2) (out_edges g5 10) = [(10, 11), (10, 14)] \<and>
   list_all2 (is_relationship g5) [(10, 13)] [rel_10_13] \<and>
   list_all2 (is_relationship g5) [(10, 11), (10, 14)] [rel_10_11, rel_10_14] \<and>
   \<not> described undescribed_graph 3 \<and>
   isl (get_inferred_relationships undescribed_graph 3)"
proof -
  have bare: "\<not> described undescribed_graph 3" by code_simp
  with inferred_relationships_grouped [of undescribed_graph 3]
  have raises: "isl (get_inferred_relationships undescribed_graph 3)" by blast
  from inferred_relationships_grouped [of g5 10] g5_described obtain gs
    where gs: "get_inferred_relationships g5 10 = Inr gs"
    and each: "\<forall>g\<in>set gs.
        list_all2 (is_relationship g5)
          (filter (inferred_edge g5 (group_no g)) (out_edges g5 10)) (relationships g)"
    by blast
  from gs g5_inferred
  have eq: "gs = [SnomedRelationshipGroup 1 [rel_10_13],
      SnomedRelationshipGroup 2 [rel_10_11, rel_10_14]]" by simp
  from each have "list_all2 (is_relationship g5)
      (filter (inferred_edge g5 1) (out_edges g5 10)) [rel_10_13]"
    and "list_all2 (is_relationship g5)
      (filter (inferred_edge g5 2) (out_edges g5 10)) [rel_10_11, rel_10_14]"
    unfolding eq by simp_all
  then have "list_all2 (is_relationship g5) [(10, 13)] [rel_10_13]"
    and "list_all2 (is_relationship g5) [(10, 11), (10, 14)] [rel_10_11, rel_10_14]"
    unfolding g5_group_1 g5_group_2 .
  with g5_described g5_out_edges g5_inferred g5_group_1 g5_group_2 bare raises show ?thesis
    by (intro conjI) blast+
qed

text \<open>
  C5 as stated fails.  The release has a relationship from concept 1 to concept 3, and
  concept 3 has no active description row.  \<^verbatim>\<open>from_rf2\<close> builds a graph in which 3 is a
  node with an empty attribute dictionary, and \<^verbatim>\<open>get_inferred_relationships\<close> raises
  \<^verbatim>\<open>TypeError\<close> for the node 3 and for the node 1, whose edge leads to it.
\<close>

theorem undescribed_concept_counterexample:
  "from_rf2 undescribed_relationships undescribed_descriptions = Inr (undescribed_graph, []) \<and>
   has_node undescribed_graph 3 \<and>
   get_inferred_relationships undescribed_graph 3 = Inl TypeError \<and>
   has_node undescribed_graph 1 \<and>
   get_inferred_relationships undescribed_graph 1 = Inl TypeError"
  by code_simp

section \<open>Ancestors grow with the depth\<close>

text \<open>
  Where \<^verbatim>\<open>get_ancestors\<close> returns for a depth it returns for every smaller positive depth,
  and a subset; an unset depth is the depth 99999.
\<close>

lemma union_calls_Inr:
  "union_calls f xs acc = Inr S \<longleftrightarrow>
     (\<forall>x\<in>set xs. \<not> isl (f x)) \<and> S = acc \<union> (\<Union>x\<in>set xs. projr (f x))"
proof (induction xs arbitrary: acc)
  case Nil
  show ?case by auto
next
  case (Cons x xs)
  show ?case
  proof (cases "f x")
    case (Inl e)
    then show ?thesis by simp
  next
    case (Inr s)
    then show ?thesis by (simp add: Cons.IH Un_assoc)
  qed
qed

lemma union_calls_mono:
  assumes g: "union_calls g xs acc = Inr T"
    and fg: "\<And>x t. x \<in> set xs \<Longrightarrow> g x = Inr t \<Longrightarrow> \<exists>s. f x = Inr s \<and> s \<subseteq> t"
  shows "\<exists>S. union_calls f xs acc = Inr S \<and> S \<subseteq> T"
proof -
  from g have ok: "\<forall>x\<in>set xs. \<not> isl (g x)"
    and T: "T = acc \<union> (\<Union>x\<in>set xs. projr (g x))"
    by (simp_all add: union_calls_Inr)
  have each: "\<not> isl (f x) \<and> projr (f x) \<subseteq> projr (g x)" if "x \<in> set xs" for x
  proof -
    from ok that obtain t where t: "g x = Inr t" by (cases "g x") auto
    from fg [OF that t] obtain s where "f x = Inr s" "s \<subseteq> t" by blast
    with t show ?thesis by simp
  qed
  let ?S = "acc \<union> (\<Union>x\<in>set xs. projr (f x))"
  have "union_calls f xs acc = Inr ?S" using each by (simp add: union_calls_Inr)
  moreover have "?S \<subseteq> T" unfolding T using each by blast
  ultimately show ?thesis by blast
qed

lemma union_calls_acc_subset: "union_calls f xs acc = Inr S \<Longrightarrow> acc \<subseteq> S"
  by (auto simp: union_calls_Inr)

lemma get_ancestors_None: "get_ancestors G c None = get_ancestors G c (Some 99999)"
  by (simp add: get_ancestors.simps [of G c None] get_ancestors.simps [of G c "Some 99999"]
      steps_value_def cong: sum.case_cong)

lemma get_ancestors_one:
  "get_ancestors G c (Some 1) =
     (case get_parents G c of
        Inl e \<Rightarrow> Inl e
      | Inr ps \<Rightarrow> Inr {a \<in> set ps. \<not> sctid a = root_concept_id})"
  by (subst get_ancestors.simps) (simp add: steps_value_def cong: sum.case_cong)

lemma get_ancestors_more:
  "1 \<le> k \<Longrightarrow>
   get_ancestors G c (Some (k + 1)) =
     (case get_parents G c of
        Inl e \<Rightarrow> Inl e
      | Inr ps \<Rightarrow>
          (case union_calls (\<lambda>p. get_ancestors G (sctid p) (Some k)) ps (set ps) of
             Inl e \<Rightarrow> Inl e
           | Inr anc \<Rightarrow> Inr {a \<in> anc. \<not> sctid a = root_concept_id}))"
  by (subst get_ancestors.simps) (simp add: steps_value_def cong: sum.case_cong)

lemma get_ancestors_moreE:
  assumes "1 \<le> k" and "get_ancestors G c (Some (k + 1)) = Inr B"
  obtains ps anc where "get_parents G c = Inr ps"
    and "union_calls (\<lambda>p. get_ancestors G (sctid p) (Some k)) ps (set ps) = Inr anc"
    and "B = {a \<in> anc. \<not> sctid a = root_concept_id}"
proof (cases "get_parents G c")
  case (Inl e)
  with assms show ?thesis by (simp add: get_ancestors_more)
next
  case ps: (Inr ps)
  show ?thesis
  proof (cases "union_calls (\<lambda>p. get_ancestors G (sctid p) (Some k)) ps (set ps)")
    case (Inl e)
    with assms ps show ?thesis by (simp add: get_ancestors_more)
  next
    case (Inr anc)
    with assms ps have "B = {a \<in> anc. \<not> sctid a = root_concept_id}"
      by (simp add: get_ancestors_more)
    with ps Inr that show ?thesis by blast
  qed
qed

lemma get_ancestors_step:
  assumes "1 \<le> k" and "get_ancestors G c (Some (k + 1)) = Inr B"
  shows "\<exists>A. get_ancestors G c (Some k) = Inr A \<and> A \<subseteq> B"
  using assms
proof (induction k arbitrary: c B rule: int_ge_induct)
  case base
  from get_ancestors_moreE [OF _ base] obtain ps anc where ps: "get_parents G c = Inr ps"
    and anc: "union_calls (\<lambda>p. get_ancestors G (sctid p) (Some 1)) ps (set ps) = Inr anc"
    and B: "B = {a \<in> anc. \<not> sctid a = root_concept_id}"
    by auto
  have "get_ancestors G c (Some 1) = Inr {a \<in> set ps. \<not> sctid a = root_concept_id}"
    by (simp add: get_ancestors_one ps)
  moreover from union_calls_acc_subset [OF anc] B
  have "{a \<in> set ps. \<not> sctid a = root_concept_id} \<subseteq> B" by blast
  ultimately show ?case by blast
next
  case (step k)
  from step.hyps have k1: "1 \<le> k + 1" by simp
  from get_ancestors_moreE [OF k1 step.prems] obtain ps anc
    where ps: "get_parents G c = Inr ps"
    and anc: "union_calls (\<lambda>p. get_ancestors G (sctid p) (Some (k + 1))) ps (set ps) = Inr anc"
    and B: "B = {a \<in> anc. \<not> sctid a = root_concept_id}"
    by auto
  from union_calls_mono [OF anc, of "\<lambda>p. get_ancestors G (sctid p) (Some k)"] step.IH
  obtain anc' where anc': "union_calls (\<lambda>p. get_ancestors G (sctid p) (Some k)) ps (set ps) = Inr anc'"
    and sub: "anc' \<subseteq> anc" by blast
  have "get_ancestors G c (Some (k + 1)) = Inr {a \<in> anc'. \<not> sctid a = root_concept_id}"
    unfolding get_ancestors_more [OF step.hyps] by (simp add: ps anc')
  moreover from sub B have "{a \<in> anc'. \<not> sctid a = root_concept_id} \<subseteq> B" by blast
  ultimately show ?case by blast
qed


lemma get_ancestors_mono:
  assumes "1 \<le> j" and "j \<le> k" and "get_ancestors G c (Some k) = Inr B"
  shows "\<exists>A. get_ancestors G c (Some j) = Inr A \<and> A \<subseteq> B"
  using assms(2,1,3)
proof (induction k arbitrary: B rule: int_ge_induct)
  case base
  then show ?case by blast
next
  case (step k)
  from step.hyps step.prems(1) have "1 \<le> k" by simp
  from get_ancestors_step [OF this step.prems(2)] obtain A'
    where A': "get_ancestors G c (Some k) = Inr A'" and sub: "A' \<subseteq> B" by blast
  from step.IH [OF step.prems(1) A'] sub show ?case by blast
qed

lemma chain_details:
  "0 \<le> i \<Longrightarrow> i \<le> n \<Longrightarrow> get_concept_details (chain_graph n) i = Inr (chain_concept i)"
  by (simp add: get_concept_details_def chain_graph_def map_of_map_restrict chain_attrs_def
      chain_concept_def)

lemma filter_eq_distinct:
  "distinct xs \<Longrightarrow> filter (\<lambda>x. x = a) xs = (if a \<in> set xs then [a] else [])"
  by (induction xs) auto

lemma chain_out_edges:
  "out_edges (chain_graph n) i = (if 0 \<le> i \<and> i < n then [(i, i + 1)] else [])"
proof -
  have "out_edges (chain_graph n) i = map (\<lambda>j. (j, j + 1)) (filter (\<lambda>j. j = i) [0..n - 1])"
    by (simp add: out_edges_def chain_graph_def filter_map comp_def)
  then show ?thesis by (simp add: filter_eq_distinct)
qed

lemma map_of_const:
  "k \<in> f ` set xs \<Longrightarrow> map_of (map (\<lambda>x. (f x, v)) xs) k = Some v"
  by (induction xs) auto

lemma chain_edge_vals:
  "0 \<le> i \<Longrightarrow> i < n \<Longrightarrow> edge_vals (chain_graph n) (i, i + 1) = Inr isa_attrs"
proof -
  assume "0 \<le> i" "i < n"
  then have "(i, i + 1) \<in> (\<lambda>j. (j, j + 1)) ` set [0..n - 1]" by auto
  from map_of_const [OF this, of isa_attrs] show ?thesis
    by (simp add: edge_vals_def chain_graph_def)
qed

lemma chain_parents:
  assumes "0 \<le> i" and "i \<le> n"
  shows "get_parents (chain_graph n) i = Inr (if i < n then [chain_concept (i + 1)] else [])"
proof (cases "i < n")
  case True
  with assms show ?thesis
    by (simp add: get_parents_def get_out_relationships_def chain_details chain_out_edges
        chain_edge_vals make_relationship_def isa_attrs_def is_a_relationship_typeId_def)
next
  case False
  with assms show ?thesis
    by (simp add: get_parents_def get_out_relationships_def chain_details chain_out_edges)
qed


lemma chain_keep:
  "n < root_concept_id \<Longrightarrow>
   {a \<in> chain_concept ` {l..min m n}. \<not> sctid a = root_concept_id} = chain_concept ` {l..min m n}"
  by (auto simp: chain_concept_def)

lemma chain_ancestors:
  assumes "1 \<le> k" and "0 \<le> i" and "i \<le> n" and "n < root_concept_id"
  shows "get_ancestors (chain_graph n) i (Some k) = Inr (chain_concept ` {i + 1..min (i + k) n})"
  using assms
proof (induction k arbitrary: i rule: int_ge_induct)
  case base
  show ?case
  proof (cases "i < n")
    case True
    then have "{i + 1..min (i + 1) n} = {i + 1}" by auto
    with True base show ?thesis
      by (simp add: get_ancestors_one chain_parents) (auto simp: chain_concept_def)
  next
    case False
    with base show ?thesis by (simp add: get_ancestors_one chain_parents)
  qed
next
  case (step k)
  show ?case
  proof (cases "i < n")
    case True
    with step.prems have i1: "0 \<le> i + 1" "i + 1 \<le> n" by simp_all
    have rec: "get_ancestors (chain_graph n) (i + 1) (Some k) =
        Inr (chain_concept ` {i + 1 + 1..min (i + 1 + k) n})"
      by (rule step.IH [OF i1 step.prems(3)])
    have sct: "sctid (chain_concept (i + 1)) = i + 1" by (simp add: chain_concept_def)
    have "{chain_concept (i + 1)} \<union> chain_concept ` {i + 1 + 1..min (i + 1 + k) n} =
        chain_concept ` ({i + 1} \<union> {i + 1 + 1..min (i + 1 + k) n})" by blast
    also have "{i + 1} \<union> {i + 1 + 1..min (i + 1 + k) n} = {i + 1..min (i + (k + 1)) n}"
      using True step.hyps by auto
    finally have un: "{chain_concept (i + 1)} \<union> chain_concept ` {i + 1 + 1..min (i + 1 + k) n} =
        chain_concept ` {i + 1..min (i + (k + 1)) n}" .
    then have un': "set [chain_concept (i + 1)] \<union>
        chain_concept ` {i + 1 + 1..min (i + 1 + k) n} =
        chain_concept ` {i + 1..min (i + (k + 1)) n}" by simp
    have uc: "union_calls (\<lambda>p. get_ancestors (chain_graph n) (sctid p) (Some k))
          [chain_concept (i + 1)] (set [chain_concept (i + 1)]) =
        Inr (set [chain_concept (i + 1)] \<union> chain_concept ` {i + 1 + 1..min (i + 1 + k) n})"
      by (simp only: union_calls.simps sct rec sum.case)
    have par: "get_parents (chain_graph n) i = Inr [chain_concept (i + 1)]"
      using True step.prems by (simp add: chain_parents)
    show ?thesis
      by (simp only: get_ancestors_more [OF step.hyps] par sum.case uc un'
          chain_keep [OF step.prems(3)])
  next
    case False
    with step.prems show ?thesis
      unfolding get_ancestors_more [OF step.hyps] by (simp add: chain_parents)
  qed
qed

section \<open>An unset depth on a long chain\<close>

text \<open>
  \<^verbatim>\<open>get_ancestors\<close> under a recursion limit: a call either raises \<^verbatim>\<open>RecursionError\<close> or does
  what the call without a limit does, and with room for as many nested calls as the depth
  asks the two are the same.
\<close>

lemma union_calls_agrees:
  "\<forall>x\<in>set xs. f x = Inl RecursionError \<or> f x = g x \<Longrightarrow>
   union_calls f xs acc = Inl RecursionError \<or> union_calls f xs acc = union_calls g xs acc"
proof (induction xs arbitrary: acc)
  case Nil
  show ?case by simp
next
  case (Cons x xs)
  from Cons.prems have x: "f x = Inl RecursionError \<or> f x = g x"
    and xs: "\<forall>x\<in>set xs. f x = Inl RecursionError \<or> f x = g x" by simp_all
  from x show ?case
  proof
    assume "f x = Inl RecursionError"
    then show ?thesis by simp
  next
    assume eq: "f x = g x"
    show ?thesis
    proof (cases "g x")
      case (Inl e)
      with eq show ?thesis by simp
    next
      case (Inr s)
      with eq Cons.IH [OF xs, of "acc \<union> s"] show ?thesis by simp
    qed
  qed
qed

lemma get_ancestors_within_agrees:
  "get_ancestors_within limit G c s = Inl RecursionError \<or>
   get_ancestors_within limit G c s = get_ancestors G c s"
proof (induction limit arbitrary: c s)
  case 0
  show ?case by (simp add: get_ancestors_within.simps)
next
  case (Suc limit)
  show ?case
  proof (cases "s \<noteq> None \<and> steps_value s \<le> 0")
    case True
    then show ?thesis by (simp add: get_ancestors.simps [of G c s] get_ancestors_within.simps)
  next
    case valid: False
    show ?thesis
    proof (cases "get_parents G c")
      case (Inl e)
      with valid show ?thesis
        by (auto simp: get_ancestors.simps [of G c s] get_ancestors_within.simps)
    next
      case (Inr ps)
      show ?thesis
      proof (cases "steps_value s > 1")
        case False
        with valid Inr show ?thesis
          by (auto simp: get_ancestors.simps [of G c s] get_ancestors_within.simps)
      next
        case True
        let ?f = "\<lambda>p. get_ancestors_within limit G (sctid p) (Some (steps_value s - 1))"
        let ?g = "\<lambda>p. get_ancestors G (sctid p) (Some (steps_value s - 1))"
        have "\<forall>p\<in>set ps. ?f p = Inl RecursionError \<or> ?f p = ?g p"
          using Suc.IH by blast
        from union_calls_agrees [OF this, of "set ps"]
        show ?thesis
        proof
          assume "union_calls ?f ps (set ps) = Inl RecursionError"
          with valid Inr True show ?thesis by (auto simp: get_ancestors_within.simps)
        next
          assume "union_calls ?f ps (set ps) = union_calls ?g ps (set ps)"
          with valid Inr True show ?thesis
            by (auto simp: get_ancestors.simps [of G c s] get_ancestors_within.simps)
        qed
      qed
    qed
  qed
qed

lemma union_calls_same:
  "\<forall>x\<in>set xs. f x = g x \<Longrightarrow> union_calls f xs acc = union_calls g xs acc"
  by (induction xs arbitrary: acc) (auto split: sum.splits)

lemma get_ancestors_within_enough:
  "max 1 (nat (steps_value s)) \<le> limit \<Longrightarrow>
   get_ancestors_within limit G c s = get_ancestors G c s"
proof (induction limit arbitrary: c s)
  case 0
  then show ?case by simp
next
  case (Suc limit)
  have rec: "get_ancestors_within limit G (sctid p) (Some (steps_value s - 1)) =
      get_ancestors G (sctid p) (Some (steps_value s - 1))"
    if "1 < steps_value s" for p :: SnomedConceptDetails
  proof -
    from that Suc.prems have "max 1 (nat (steps_value (Some (steps_value s - 1)))) \<le> limit"
      by (simp add: steps_value_def)
    then show ?thesis by (rule Suc.IH)
  qed
  show ?case
  proof (cases "1 < steps_value s")
    case True
    have "union_calls (\<lambda>p. get_ancestors_within limit G (sctid p) (Some (steps_value s - 1))) ps acc =
        union_calls (\<lambda>p. get_ancestors G (sctid p) (Some (steps_value s - 1))) ps acc"
      for ps :: "SnomedConceptDetails list" and acc
      by (rule union_calls_same) (simp add: rec [OF True])
    with True show ?thesis
      by (simp add: get_ancestors.simps [of G c s] get_ancestors_within.simps
          cong: sum.case_cong)
  next
    case False
    show ?thesis
    proof (cases s)
      case None
      with False show ?thesis by (simp add: steps_value_def)
    next
      case (Some a)
      with False show ?thesis
        by (simp add: get_ancestors.simps [of G c "Some a"] get_ancestors_within.simps
            steps_value_def cong: sum.case_cong)
    qed
  qed
qed

lemma get_ancestors_within_None:
  "get_ancestors_within limit G c None = get_ancestors_within limit G c (Some 99999)"
  by (cases limit) (simp_all add: get_ancestors_within.simps steps_value_def cong: sum.case_cong)

lemma get_ancestors_within_Suc:
  "1 \<le> k \<Longrightarrow>
   get_ancestors_within (Suc limit) G c (Some k) =
     (case get_parents G c of
        Inl e \<Rightarrow> Inl e
      | Inr ps \<Rightarrow>
          (case (if k > 1
                 then union_calls (\<lambda>p. get_ancestors_within limit G (sctid p) (Some (k - 1)))
                        ps (set ps)
                 else Inr (set ps)) of
             Inl e \<Rightarrow> Inl e
           | Inr anc \<Rightarrow> Inr {a \<in> anc. \<not> sctid a = root_concept_id}))"
  by (cases "get_parents G c") (simp_all add: get_ancestors_within.simps steps_value_def)

text \<open>
  On the chain of \<open>n\<close> \<^verbatim>\<open>is a\<close> edges a call on concept \<open>i\<close> with depth \<open>k\<close> nests
  \<open>min (k - 1) (n - i)\<close> calls below itself.
\<close>

lemma chain_within:
  assumes "1 \<le> k" and "0 \<le> i" and "i \<le> n" and "n < root_concept_id"
  shows "get_ancestors_within limit (chain_graph n) i (Some k) =
     (if limit \<le> nat (min (k - 1) (n - i)) then Inl RecursionError
      else Inr (chain_concept ` {i + 1..min (i + k) n}))"
  using assms(1,2,3)
proof (induction limit arbitrary: i k)
  case 0
  show ?case by (simp add: get_ancestors_within.simps)
next
  case (Suc limit)
  note ideal = chain_ancestors [OF Suc.prems assms(4)]
  note agree = get_ancestors_within_agrees [of "Suc limit" "chain_graph n" i "Some k"]
  show ?case
  proof (cases "1 < k \<and> i < n")
    case False
    then have small: "\<not> Suc limit \<le> nat (min (k - 1) (n - i))" by auto
    from False Suc.prems have "\<exists>X. get_ancestors_within (Suc limit) (chain_graph n) i (Some k) = Inr X"
      by (auto simp: get_ancestors_within_Suc chain_parents)
    with agree ideal small show ?thesis by auto
  next
    case True
    with Suc.prems have i1: "1 \<le> k - 1" "0 \<le> i + 1" "i + 1 \<le> n" by simp_all
    note IH = Suc.IH [OF i1]
    have par: "get_parents (chain_graph n) i = Inr [chain_concept (i + 1)]"
      using True Suc.prems by (simp add: chain_parents)
    have sct: "sctid (chain_concept (i + 1)) = i + 1" by (simp add: chain_concept_def)
    show ?thesis
    proof (cases "limit \<le> nat (min (k - 1 - 1) (n - (i + 1)))")
      case over: True
      with IH have "get_ancestors_within limit (chain_graph n) (i + 1) (Some (k - 1)) =
          Inl RecursionError" by simp
      then have "get_ancestors_within (Suc limit) (chain_graph n) i (Some k) = Inl RecursionError"
        using True Suc.prems by (simp add: get_ancestors_within_Suc par sct)
      moreover from over True have "Suc limit \<le> nat (min (k - 1) (n - i))" by auto
      ultimately show ?thesis by simp
    next
      case fits: False
      with IH obtain X where "get_ancestors_within limit (chain_graph n) (i + 1) (Some (k - 1)) = Inr X"
        by simp
      then have "\<exists>Y. get_ancestors_within (Suc limit) (chain_graph n) i (Some k) = Inr Y"
        using True Suc.prems by (simp add: get_ancestors_within_Suc par sct)
      moreover from fits True have "\<not> Suc limit \<le> nat (min (k - 1) (n - i))" by auto
      ultimately show ?thesis using agree ideal by auto
    qed
  qed
qed

text \<open>
  C1, at an input where the code does not do what the claim says.  The graph is the
  chain of 100000 \<^verbatim>\<open>is a\<close> edges from concept 0 up to concept 100000, the call is
  \<^verbatim>\<open>get_ancestors(0)\<close> with no depth.  Whatever room the interpreter has: with room for
  fewer than 99999 nested calls (as under the default recursion limit) the call raises
  \<^verbatim>\<open>RecursionError\<close>, with more it returns the concepts 1 to 99999.  Concept 100000 is an
  ancestor of concept 0, and the call with depth 100000 returns it wherever that call
  returns; the call with no depth never does.  So the result for an unset depth is not
  the closure, and not the union of the results for all depths.
\<close>

theorem unset_depth_misses_ancestor:
  "get_ancestors_within limit (chain_graph 100000) 0 None =
     (if limit < 99999 then Inl RecursionError else Inr (chain_concept ` {1..99999})) \<and>
   get_ancestors_within limit (chain_graph 100000) 0 (Some 100000) =
     (if limit < 100000 then Inl RecursionError else Inr (chain_concept ` {1..100000})) \<and>
   chain_concept 100000 \<in> chain_concept ` {1..100000} \<and>
   chain_concept 100000 \<notin> chain_concept ` {1..99999}"
proof (intro conjI)
  show "get_ancestors_within limit (chain_graph 100000) 0 None =
     (if limit < 99999 then Inl RecursionError else Inr (chain_concept ` {1..99999}))"
    unfolding get_ancestors_within_None
    using chain_within [of 99999 0 100000 limit] by (auto simp: root_concept_id_def)
  show "get_ancestors_within limit (chain_graph 100000) 0 (Some 100000) =
     (if limit < 100000 then Inl RecursionError else Inr (chain_concept ` {1..100000}))"
    using chain_within [of 100000 0 100000 limit] by (auto simp: root_concept_id_def)
  show "chain_concept 100000 \<in> chain_concept ` {1..100000}" by simp
  show "chain_concept 100000 \<notin> chain_concept ` {1..99999}"
    by (auto simp: chain_concept_def)
qed

section \<open>Building: what the steps of the construction do\<close>

lemma find_append:
  "List.find P (xs @ ys) = (case List.find P xs of None \<Rightarrow> List.find P ys | Some x \<Rightarrow> Some x)"
  by (induction xs) auto

lemma edges_add_edge [simp]: "edges (add_edge u v a G) = AList.update (u, v) a (edges G)"
  by (simp add: add_edge_def add_bare_node_def Let_def)

lemma edges_add_node [simp]: "edges (add_node n a G) = edges G"
  by (simp add: add_node_def)

lemma edges_remove_isolates [simp]: "edges (remove_isolates G) = edges G"
  by (simp add: remove_isolates_def)

lemma create_relationships_edges:
  assumes "create_relationships types rs G = Inr G'"
  shows "(\<forall>r\<in>set rs. types (typeId r) \<noteq> None) \<and>
         (\<forall>s t. map_of (edges G') (s, t) =
            (case List.find (\<lambda>r. sourceId r = s \<and> destinationId r = t) (rev rs) of
               None \<Rightarrow> map_of (edges G) (s, t)
             | Some r \<Rightarrow>
                 Some \<lparr>group = relationshipGroup r, type_name = the (types (typeId r)),
                        type_id = typeId r\<rparr>)) \<and>
         (distinct (map fst (edges G)) \<longrightarrow> distinct (map fst (edges G')))"
  using assms
proof (induction rs arbitrary: G)
  case Nil
  then show ?case by simp
next
  case (Cons r rs)
  from Cons.prems obtain name where name: "types (typeId r) = Some name"
    and rest: "create_relationships types rs
        (add_edge (sourceId r) (destinationId r)
           \<lparr>group = relationshipGroup r, type_name = name, type_id = typeId r\<rparr> G) = Inr G'"
    by (auto split: option.splits)
  note IH = Cons.IH [OF rest]
  show ?case
  proof (intro conjI allI impI)
    show "\<forall>r\<in>set (r # rs). types (typeId r) \<noteq> None"
      using IH name by simp
  next
    fix s t
    show "map_of (edges G') (s, t) =
        (case List.find (\<lambda>r. sourceId r = s \<and> destinationId r = t) (rev (r # rs)) of
           None \<Rightarrow> map_of (edges G) (s, t)
         | Some r \<Rightarrow>
             Some \<lparr>group = relationshipGroup r, type_name = the (types (typeId r)),
                    type_id = typeId r\<rparr>)"
      using IH name
      by (simp add: find_append update_conv' split: option.splits)
  next
    assume "distinct (map fst (edges G))"
    then show "distinct (map fst (edges G'))"
      using IH by (simp add: distinct_update)
  qed
qed

lemma add_concepts_edges:
  "add_concepts df cs (G, out) = Inr (G', out') \<Longrightarrow> edges G' = edges G"
  by (induction cs arbitrary: G out) (auto split: sum.splits)

lemma to_dict_dom: "to_dict df t \<noteq> None \<longleftrightarrow> t \<in> conceptId ` set df"
proof -
  have "to_dict df t \<noteq> None \<longleftrightarrow> t \<in> fst ` set (rev (map (\<lambda>d. (conceptId d, term_text d)) df))"
    unfolding to_dict_def by (simp only: map_of_eq_None_iff not_not)
  then show ?thesis by (simp add: image_image)
qed

lemma loc_Inr:
  "loc df labels = Inr rows \<longleftrightarrow>
     set labels \<subseteq> conceptId ` set df \<and>
     rows = concat (map (\<lambda>l. filter (\<lambda>d. conceptId d = l) df) labels)"
  by (auto simp: loc_def)

lemma set_unique [simp]: "set (unique xs) = set xs"
  by (simp add: unique_def)

lemma relationship_types_ok:
  assumes "\<forall>r\<in>set rdf. \<exists>d\<in>set cdf. conceptId d = typeId r \<and> typeId d = fsn_typeId"
  shows "\<exists>types. relationship_types rdf cdf = Inr types \<and>
           (\<forall>r\<in>set rdf. types (typeId r) \<noteq> None)"
proof -
  let ?labels = "unique (map typeId rdf)"
  let ?rows = "concat (map (\<lambda>l. filter (\<lambda>d. conceptId d = l) cdf) ?labels)"
  from assms have "set ?labels \<subseteq> conceptId ` set cdf" by force
  then have l: "loc cdf ?labels = Inr ?rows" by (simp add: loc_Inr)
  then have t: "relationship_types rdf cdf =
      Inr (to_dict (filter (\<lambda>d. typeId d = fsn_typeId) ?rows))"
    by (simp add: relationship_types_def)
  have "to_dict (filter (\<lambda>d. typeId d = fsn_typeId) ?rows) (typeId r) \<noteq> None"
    if r: "r \<in> set rdf" for r
  proof -
    from assms r obtain d where d: "d \<in> set cdf" "conceptId d = typeId r" "typeId d = fsn_typeId"
      by blast
    with r have "d \<in> set (filter (\<lambda>d. typeId d = fsn_typeId) ?rows)" by auto
    with d(2) show ?thesis unfolding to_dict_dom by force
  qed
  with t show ?thesis by blast
qed

lemma create_relationships_ok:
  "\<forall>r\<in>set rs. types (typeId r) \<noteq> None \<Longrightarrow> \<exists>G'. create_relationships types rs G = Inr G'"
  by (induction rs arbitrary: G) auto

lemma concept_node_ok: "rows \<noteq> [] \<Longrightarrow> \<exists>a w. concept_node rows = Inr (a, w)"
proof (cases "filter (\<lambda>row. typeId row = fsn_typeId) rows")
  case Nil
  assume "rows \<noteq> []"
  with Nil have "filter (\<lambda>row. typeId row \<noteq> fsn_typeId) rows = rows"
    by (simp add: filter_empty_conv filter_id_conv)
  with Nil \<open>rows \<noteq> []\<close> show ?thesis
    by (cases rows) (simp_all add: concept_node_def)
next
  case (Cons d ds)
  then show ?thesis by (simp add: concept_node_def)
qed

lemma concept_node_no_fsn:
  assumes "rows \<noteq> []" and "\<forall>d\<in>set rows. typeId d \<noteq> fsn_typeId"
  shows "concept_node rows =
     Inr (\<lparr>fsn = term_text (hd rows), synonyms = map term_text (tl rows)\<rparr>, [term_text (hd rows)])"
proof -
  from assms(2) have "filter (\<lambda>row. typeId row = fsn_typeId) rows = []"
    and "filter (\<lambda>row. typeId row \<noteq> fsn_typeId) rows = rows"
    by (simp_all add: filter_empty_conv filter_id_conv)
  with assms(1) show ?thesis
    by (cases rows) (simp_all add: concept_node_def)
qed

lemma add_concepts_ok:
  "\<forall>c\<in>set cs. filter (\<lambda>d. conceptId d = c) df \<noteq> [] \<Longrightarrow>
   \<exists>G' out'. add_concepts df cs (G, out) = Inr (G', out')"
proof (induction cs arbitrary: G out)
  case Nil
  then show ?case by simp
next
  case (Cons c cs)
  from Cons.prems have "filter (\<lambda>d. conceptId d = c) df \<noteq> []" by simp
  from concept_node_ok [OF this] obtain a w
    where "concept_node (filter (\<lambda>d. conceptId d = c) df) = Inr (a, w)" by blast
  moreover from Cons.prems have "\<forall>c\<in>set cs. filter (\<lambda>d. conceptId d = c) df \<noteq> []" by simp
  from Cons.IH [OF this] obtain G' out'
    where "add_concepts df cs (add_node c a G, out @ map (Pair c) w) = Inr (G', out')" by blast
  ultimately show ?case by simp
qed

lemma add_concepts_keeps:
  "add_concepts df cs (G, out) = Inr (G', out') \<Longrightarrow>
     set out \<subseteq> set out' \<and> (c \<notin> set cs \<longrightarrow> map_of (nodes G') c = map_of (nodes G) c)"
proof (induction cs arbitrary: G out)
  case Nil
  then show ?case by simp
next
  case (Cons c' cs)
  from Cons.prems obtain a w
    where n: "concept_node (filter (\<lambda>d. conceptId d = c') df) = Inr (a, w)"
    and r: "add_concepts df cs (add_node c' a G, out @ map (Pair c') w) = Inr (G', out')"
    by (auto split: sum.splits)
  from Cons.IH [OF r] show ?case
    by (auto simp: add_node_def update_conv')
qed

lemma add_concepts_result:
  assumes "add_concepts df cs (G, out) = Inr (G', out')" and "distinct cs" and "c \<in> set cs"
    and "concept_node (filter (\<lambda>d. conceptId d = c) df) = Inr (a, w)"
  shows "map_of (nodes G') c = Some (Some a) \<and> Pair c ` set w \<subseteq> set out'"
  using assms(1,2,3)
proof (induction cs arbitrary: G out)
  case Nil
  then show ?case by simp
next
  case (Cons c' cs)
  from Cons.prems(1) obtain a' w'
    where n: "concept_node (filter (\<lambda>d. conceptId d = c') df) = Inr (a', w')"
    and r: "add_concepts df cs (add_node c' a' G, out @ map (Pair c') w') = Inr (G', out')"
    by (auto split: sum.splits)
  show ?case
  proof (cases "c = c'")
    case True
    with n assms(4) have eq: "a' = a" "w' = w" by simp_all
    from Cons.prems(2) True have "c \<notin> set cs" by simp
    with add_concepts_keeps [OF r, of c] show ?thesis
      by (auto simp: eq True add_node_def update_conv')
  next
    case False
    with Cons.prems have "distinct cs" "c \<in> set cs" by simp_all
    from Cons.IH [OF r this] show ?thesis .
  qed
qed

lemma map_of_filter_key:
  "map_of (filter (\<lambda>(k, v). P k) xs) c = (if P c then map_of xs c else None)"
  by (induction xs) auto

lemma find_member: "List.find P xs = Some x \<Longrightarrow> x \<in> set xs \<and> P x"
  by (induction xs) (auto split: if_splits)

lemma create_relationships_keys:
  assumes "create_relationships types rs G = Inr G'"
  shows "fst ` set (edges G') =
           fst ` set (edges G) \<union> (\<lambda>r. (sourceId r, destinationId r)) ` set rs"
proof -
  note ch = create_relationships_edges [OF assms]
  have "e \<in> fst ` set (edges G') \<longleftrightarrow>
        e \<in> fst ` set (edges G) \<union> (\<lambda>r. (sourceId r, destinationId r)) ` set rs" for e
  proof -
    obtain s t where e: "e = (s, t)" by (cases e)
    have "e \<in> fst ` set (edges G') \<longleftrightarrow> map_of (edges G') (s, t) \<noteq> None"
      unfolding e by (simp only: map_of_eq_None_iff not_not)
    also have "\<dots> \<longleftrightarrow> List.find (\<lambda>r. sourceId r = s \<and> destinationId r = t) (rev rs) \<noteq> None \<or>
        map_of (edges G) (s, t) \<noteq> None"
      using ch by (auto split: option.splits)
    also have "\<dots> \<longleftrightarrow> (s, t) \<in> (\<lambda>r. (sourceId r, destinationId r)) ` set rs \<or>
        (s, t) \<in> fst ` set (edges G)"
    proof -
      have "map_of (edges G) (s, t) \<noteq> None \<longleftrightarrow> (s, t) \<in> fst ` set (edges G)"
        by (simp only: map_of_eq_None_iff not_not)
      moreover have "List.find (\<lambda>r. sourceId r = s \<and> destinationId r = t) (rev rs) \<noteq> None \<longleftrightarrow>
          (s, t) \<in> (\<lambda>r. (sourceId r, destinationId r)) ` set rs"
        by (auto simp: find_None_iff)
      ultimately show ?thesis by blast
    qed
    finally show ?thesis unfolding e by blast
  qed
  then show ?thesis by blast
qed

text \<open>
  Construction completes exactly when every relationship type of an active relationship
  row has an active FSN row: the type lookup is the only step that can raise.
\<close>

lemma from_rf2_run:
  assumes "\<forall>r\<in>set (active_rows relationship_rows).
             \<exists>d\<in>set (active_rows description_rows).
               conceptId d = typeId r \<and> typeId d = fsn_typeId"
  shows "\<exists>types G1 G2 out.
           relationship_types (active_rows relationship_rows) (active_rows description_rows) =
             Inr types \<and>
           create_relationships types (active_rows relationship_rows)
             \<lparr>nodes = [], edges = []\<rparr> = Inr G1 \<and>
           add_concepts (active_rows description_rows)
             (sort (remdups (map conceptId (active_rows description_rows)))) (G1, []) =
             Inr (G2, out) \<and>
           from_rf2 relationship_rows description_rows = Inr (remove_isolates G2, out)"
proof -
  let ?rdf = "active_rows relationship_rows"
  let ?cdf = "active_rows description_rows"
  let ?cs = "sort (remdups (map conceptId ?cdf))"
  from relationship_types_ok [OF assms] obtain types
    where types: "relationship_types ?rdf ?cdf = Inr types"
    and res: "\<forall>r\<in>set ?rdf. types (typeId r) \<noteq> None" by blast
  from create_relationships_ok [OF res] obtain G1
    where G1: "create_relationships types ?rdf \<lparr>nodes = [], edges = []\<rparr> = Inr G1" by blast
  have "\<forall>c\<in>set ?cs. filter (\<lambda>d. conceptId d = c) ?cdf \<noteq> []"
    by (auto simp: filter_empty_conv)
  from add_concepts_ok [OF this] obtain G2 out
    where G2: "add_concepts ?cdf ?cs (G1, []) = Inr (G2, out)" by blast
  from types G1 G2 have "from_rf2 relationship_rows description_rows =
      Inr (remove_isolates G2, out)"
    by (simp add: from_rf2_def)
  with types G1 G2 show ?thesis by blast
qed

lemma from_rf2_named:
  assumes "from_rf2 relationship_rows description_rows = Inr (G, out)"
  shows "\<forall>r\<in>set (active_rows relationship_rows).
             \<exists>d\<in>set (active_rows description_rows).
               conceptId d = typeId r \<and> typeId d = fsn_typeId"
proof
  let ?rdf = "active_rows relationship_rows"
  let ?cdf = "active_rows description_rows"
  fix r assume r: "r \<in> set ?rdf"
  from assms obtain types G1 where
    types: "relationship_types ?rdf ?cdf = Inr types"
    and G1: "create_relationships types ?rdf \<lparr>nodes = [], edges = []\<rparr> = Inr G1"
    by (auto simp: from_rf2_def Let_def split: sum.splits prod.splits)
  from create_relationships_edges [OF G1] r have n: "types (typeId r) \<noteq> None" by blast
  from types obtain rows where rows: "loc ?cdf (unique (map typeId ?rdf)) = Inr rows"
    and t: "types = to_dict (filter (\<lambda>d. typeId d = fsn_typeId) rows)"
    by (auto simp: relationship_types_def split: sum.splits)
  from n t have "typeId r \<in> conceptId ` set (filter (\<lambda>d. typeId d = fsn_typeId) rows)"
    by (simp only: to_dict_dom)
  then obtain d where d: "d \<in> set rows" "typeId d = fsn_typeId" "conceptId d = typeId r"
    by auto
  from rows d(1) have "d \<in> set ?cdf" by (auto simp: loc_Inr)
  with d show "\<exists>d\<in>set ?cdf. conceptId d = typeId r \<and> typeId d = fsn_typeId" by blast
qed

lemma create_relationships_unnamed:
  "\<exists>r\<in>set rs. types (typeId r) = None \<Longrightarrow> create_relationships types rs G = Inl KeyError"
  by (induction rs arbitrary: G) (auto split: option.splits)

lemma relationship_types_error: "relationship_types rdf cdf = Inl e \<Longrightarrow> e = KeyError"
  by (auto simp: relationship_types_def loc_def split: if_splits sum.splits)

lemma from_rf2_unnamed:
  assumes "\<not> (\<forall>r\<in>set (active_rows relationship_rows).
                \<exists>d\<in>set (active_rows description_rows).
                  conceptId d = typeId r \<and> typeId d = fsn_typeId)"
  shows "from_rf2 relationship_rows description_rows = Inl KeyError"
proof -
  let ?rdf = "active_rows relationship_rows"
  let ?cdf = "active_rows description_rows"
  from assms obtain r where r: "r \<in> set ?rdf"
    and no: "\<forall>d\<in>set ?cdf. \<not> (conceptId d = typeId r \<and> typeId d = fsn_typeId)" by blast
  show ?thesis
  proof (cases "relationship_types ?rdf ?cdf")
    case (Inl e)
    from relationship_types_error [OF this] Inl show ?thesis
      by (simp add: from_rf2_def)
  next
    case (Inr types)
    then obtain rows where rows: "loc ?cdf (unique (map typeId ?rdf)) = Inr rows"
      and t: "types = to_dict (filter (\<lambda>d. typeId d = fsn_typeId) rows)"
      by (auto simp: relationship_types_def split: sum.splits)
    have "types (typeId r) = None"
    proof (rule ccontr)
      assume "types (typeId r) \<noteq> None"
      with t have "typeId r \<in> conceptId ` set (filter (\<lambda>d. typeId d = fsn_typeId) rows)"
        by (simp only: to_dict_dom)
      then obtain d where d: "d \<in> set rows" "typeId d = fsn_typeId" "conceptId d = typeId r"
        by auto
      from rows d(1) have "d \<in> set ?cdf" by (auto simp: loc_Inr)
      with d no show False by blast
    qed
    with r have "\<exists>r\<in>set ?rdf. types (typeId r) = None" by blast
    from create_relationships_unnamed [OF this] Inr show ?thesis
      by (simp add: from_rf2_def)
  qed
qed

lemma release_build:
  "from_rf2 release_relationships release_descriptions =
     Inr (release_graph, [(2, ''Femur''), (4, ''Unused'')])"
  by code_simp

lemma release_types_named:
  "\<forall>r\<in>set (active_rows release_relationships).
     \<exists>d\<in>set (active_rows release_descriptions).
       conceptId d = typeId r \<and> typeId d = fsn_typeId"
  by code_simp

section \<open>Building: one edge per pair, the later row wins\<close>

text \<open>
  C6.  Whenever every relationship type of an active relationship row has an active FSN
  row (which is when construction completes), \<^verbatim>\<open>from_rf2\<close> returns a graph whose edge
  dictionary has at most one entry for every ordered pair (source, target), hence at
  most one per pair and type; a pair that is the source and destination of no active
  relationship row has no edge; and the edge of any other pair carries the group, the
  type identifier and the looked-up type name of the last active relationship row with
  that source and destination, whatever the earlier rows of the pair said.
\<close>

theorem last_write_wins:
  assumes "\<forall>r\<in>set (active_rows relationship_rows).
             \<exists>d\<in>set (active_rows description_rows).
               conceptId d = typeId r \<and> typeId d = fsn_typeId"
  shows "\<exists>G out types.
     from_rf2 relationship_rows description_rows = Inr (G, out) \<and>
     relationship_types (active_rows relationship_rows) (active_rows description_rows) =
       Inr types \<and>
     distinct (map fst (edges G)) \<and>
     (\<forall>s t. case List.find (\<lambda>r. sourceId r = s \<and> destinationId r = t)
                   (rev (active_rows relationship_rows)) of
              None \<Rightarrow> map_of (edges G) (s, t) = None
            | Some r \<Rightarrow>
                \<exists>name. types (typeId r) = Some name \<and>
                  map_of (edges G) (s, t) =
                    Some \<lparr>group = relationshipGroup r, type_name = name, type_id = typeId r\<rparr>)"
proof -
  let ?rdf = "active_rows relationship_rows"
  from from_rf2_run [OF assms] obtain types G1 G2 out where
    types: "relationship_types ?rdf (active_rows description_rows) = Inr types"
    and G1: "create_relationships types ?rdf \<lparr>nodes = [], edges = []\<rparr> = Inr G1"
    and G2: "add_concepts (active_rows description_rows)
      (sort (remdups (map conceptId (active_rows description_rows)))) (G1, []) = Inr (G2, out)"
    and run: "from_rf2 relationship_rows description_rows = Inr (remove_isolates G2, out)"
    by blast
  from add_concepts_edges [OF G2] have e: "edges G2 = edges G1" .
  note ch = create_relationships_edges [OF G1]
  from ch have d: "distinct (map fst (edges (remove_isolates G2)))" by (simp add: e)
  have "case List.find (\<lambda>r. sourceId r = s \<and> destinationId r = t) (rev ?rdf) of
              None \<Rightarrow> map_of (edges (remove_isolates G2)) (s, t) = None
            | Some r \<Rightarrow>
                \<exists>name. types (typeId r) = Some name \<and>
                  map_of (edges (remove_isolates G2)) (s, t) =
                    Some \<lparr>group = relationshipGroup r, type_name = name, type_id = typeId r\<rparr>"
    for s t
  proof (cases "List.find (\<lambda>r. sourceId r = s \<and> destinationId r = t) (rev ?rdf)")
    case None
    with ch show ?thesis by (simp add: e)
  next
    case (Some r)
    from find_member [OF this] have "r \<in> set ?rdf" by simp
    with ch obtain name where "types (typeId r) = Some name" by auto
    with ch Some show ?thesis by (simp add: e)
  qed
  with run types d show ?thesis by blast
qed

lemma release_last_row:
  "List.find (\<lambda>r. sourceId r = 1 \<and> destinationId r = 2) (rev (active_rows release_relationships)) =
     Some (rel_row 1 1 2 1 363698007)"
  by code_simp

theorem last_write_wins_witness:
  "from_rf2 release_relationships release_descriptions =
     Inr (release_graph, [(2, ''Femur''), (4, ''Unused'')]) \<and>
   distinct (map fst (edges release_graph)) \<and>
   List.find (\<lambda>r. sourceId r = 1 \<and> destinationId r = 2) (rev (active_rows release_relationships)) =
     Some (rel_row 1 1 2 1 363698007) \<and>
   (\<exists>name. map_of (edges release_graph) (1, 2) =
      Some \<lparr>group = 1, type_name = name, type_id = 363698007\<rparr>)"
proof -
  from last_write_wins [OF release_types_named] obtain G out types
    where run: "from_rf2 release_relationships release_descriptions = Inr (G, out)"
    and d: "distinct (map fst (edges G))"
    and e: "\<And>s t. case List.find (\<lambda>r. sourceId r = s \<and> destinationId r = t)
                   (rev (active_rows release_relationships)) of
              None \<Rightarrow> map_of (edges G) (s, t) = None
            | Some r \<Rightarrow>
                \<exists>name. types (typeId r) = Some name \<and>
                  map_of (edges G) (s, t) =
                    Some \<lparr>group = relationshipGroup r, type_name = name, type_id = typeId r\<rparr>"
    by blast
  from run release_build have G: "G = release_graph" by simp
  from e [of 1 2] have "\<exists>name. map_of (edges G) (1, 2) =
      Some \<lparr>group = 1, type_name = name, type_id = 363698007\<rparr>"
    unfolding release_last_row by (auto simp: rel_row_def)
  with d release_build release_last_row show ?thesis unfolding G by (intro conjI)
qed

section \<open>Building: a concept without a fully specified name\<close>

text \<open>
  C7 (as amended).  When every relationship type of an active relationship row has an
  active FSN row, \<^verbatim>\<open>from_rf2\<close> returns, and for every concept that has active description
  rows none of which is an FSN row: the message naming the concept and its first synonym
  is printed; and if the concept is the source or the destination of an active
  relationship row, it is a node of the returned graph whose \<^verbatim>\<open>fsn\<close> is the term of its
  first active row and whose \<^verbatim>\<open>synonyms\<close> are the terms of its other active rows, in
  order; otherwise it is isolated and not a node of the returned graph.  When some
  relationship type of an active relationship row has no active FSN row, \<^verbatim>\<open>from_rf2\<close>
  raises \<^verbatim>\<open>KeyError\<close>.
\<close>

theorem fsn_fallback:
  "if \<forall>r\<in>set (active_rows relationship_rows).
        \<exists>d\<in>set (active_rows description_rows).
          conceptId d = typeId r \<and> typeId d = fsn_typeId
   then \<exists>G out. from_rf2 relationship_rows description_rows = Inr (G, out) \<and>
     (\<forall>c rows.
        rows = filter (\<lambda>d. conceptId d = c) (active_rows description_rows) \<longrightarrow>
        rows \<noteq> [] \<longrightarrow> (\<forall>d\<in>set rows. typeId d \<noteq> fsn_typeId) \<longrightarrow>
        (c, term_text (hd rows)) \<in> set out \<and>
        map_of (nodes G) c =
          (if c \<in> sourceId ` set (active_rows relationship_rows) \<union>
                  destinationId ` set (active_rows relationship_rows)
           then Some (Some \<lparr>fsn = term_text (hd rows), synonyms = map term_text (tl rows)\<rparr>)
           else None))
   else from_rf2 relationship_rows description_rows = Inl KeyError"
proof (cases "\<forall>r\<in>set (active_rows relationship_rows).
        \<exists>d\<in>set (active_rows description_rows).
          conceptId d = typeId r \<and> typeId d = fsn_typeId")
  case False
  show ?thesis unfolding if_not_P [OF False] by (rule from_rf2_unnamed [OF False])
next
  case named: True
  let ?rdf = "active_rows relationship_rows"
  let ?cdf = "active_rows description_rows"
  let ?cs = "sort (remdups (map conceptId ?cdf))"
  from from_rf2_run [OF named] obtain types G1 G2 out where
    G1: "create_relationships types ?rdf \<lparr>nodes = [], edges = []\<rparr> = Inr G1"
    and G2: "add_concepts ?cdf ?cs (G1, []) = Inr (G2, out)"
    and run: "from_rf2 relationship_rows description_rows = Inr (remove_isolates G2, out)"
    by blast
  from add_concepts_edges [OF G2] have e: "edges G2 = edges G1" .
  from create_relationships_keys [OF G1]
  have keys: "fst ` set (edges G2) = (\<lambda>r. (sourceId r, destinationId r)) ` set ?rdf"
    by (simp add: e)
  have ends: "(c \<in> set (map (fst \<circ> fst) (edges G2)) \<or> c \<in> set (map (snd \<circ> fst) (edges G2))) \<longleftrightarrow>
      c \<in> sourceId ` set ?rdf \<union> destinationId ` set ?rdf" for c
  proof -
    have "set (map (fst \<circ> fst) (edges G2)) = fst ` fst ` set (edges G2)"
      and "set (map (snd \<circ> fst) (edges G2)) = snd ` fst ` set (edges G2)"
      by (simp_all add: image_image)
    then show ?thesis unfolding keys by (auto simp: image_image)
  qed
  have kept: "map_of (nodes (remove_isolates G2)) c =
      (if c \<in> sourceId ` set ?rdf \<union> destinationId ` set ?rdf then map_of (nodes G2) c else None)"
    for c
    unfolding remove_isolates_def using ends [of c]
    by (simp add: map_of_filter_key)
  have "(c, term_text (hd rows)) \<in> set out \<and>
        map_of (nodes (remove_isolates G2)) c =
          (if c \<in> sourceId ` set ?rdf \<union> destinationId ` set ?rdf
           then Some (Some \<lparr>fsn = term_text (hd rows), synonyms = map term_text (tl rows)\<rparr>)
           else None)"
    if rows: "rows = filter (\<lambda>d. conceptId d = c) ?cdf" and ne: "rows \<noteq> []"
      and nofsn: "\<forall>d\<in>set rows. typeId d \<noteq> fsn_typeId" for c rows
  proof -
    from rows ne have c: "c \<in> set ?cs" by (auto simp: filter_empty_conv)
    have d: "distinct ?cs" by simp
    from concept_node_no_fsn [OF ne nofsn]
    have n: "concept_node (filter (\<lambda>d. conceptId d = c) ?cdf) =
        Inr (\<lparr>fsn = term_text (hd rows), synonyms = map term_text (tl rows)\<rparr>,
             [term_text (hd rows)])"
      by (simp add: rows)
    from add_concepts_result [OF G2 d c n]
    have node: "map_of (nodes G2) c =
        Some (Some \<lparr>fsn = term_text (hd rows), synonyms = map term_text (tl rows)\<rparr>)"
      and warn: "(c, term_text (hd rows)) \<in> set out" by simp_all
    from warn show ?thesis by (simp only: kept node)
  qed
  with run have "\<exists>G out. from_rf2 relationship_rows description_rows = Inr (G, out) \<and>
     (\<forall>c rows.
        rows = filter (\<lambda>d. conceptId d = c) (active_rows description_rows) \<longrightarrow>
        rows \<noteq> [] \<longrightarrow> (\<forall>d\<in>set rows. typeId d \<noteq> fsn_typeId) \<longrightarrow>
        (c, term_text (hd rows)) \<in> set out \<and>
        map_of (nodes G) c =
          (if c \<in> sourceId ` set (active_rows relationship_rows) \<union>
                  destinationId ` set (active_rows relationship_rows)
           then Some (Some \<lparr>fsn = term_text (hd rows), synonyms = map term_text (tl rows)\<rparr>)
           else None))"
    by blast
  then show ?thesis unfolding if_P [OF named] .
qed

lemma release_rows_2:
  "filter (\<lambda>d. conceptId d = 2) (active_rows release_descriptions) =
     [desc_row 1 2 900000000000013009 ''Femur'', desc_row 1 2 900000000000013009 ''Thigh bone'']"
  by code_simp

lemma release_rows_4:
  "filter (\<lambda>d. conceptId d = 4) (active_rows release_descriptions) =
     [desc_row 1 4 900000000000013009 ''Unused'']"
  by code_simp

lemma release_ends:
  "2 \<in> sourceId ` set (active_rows release_relationships) \<union>
       destinationId ` set (active_rows release_relationships) \<and>
   4 \<notin> sourceId ` set (active_rows release_relationships) \<union>
       destinationId ` set (active_rows release_relationships)"
  by code_simp

theorem fsn_fallback_witness:
  "from_rf2 release_relationships release_descriptions =
     Inr (release_graph, [(2, ''Femur''), (4, ''Unused'')]) \<and>
   filter (\<lambda>d. conceptId d = 2) (active_rows release_descriptions) =
     [desc_row 1 2 900000000000013009 ''Femur'', desc_row 1 2 900000000000013009 ''Thigh bone''] \<and>
   filter (\<lambda>d. conceptId d = 4) (active_rows release_descriptions) =
     [desc_row 1 4 900000000000013009 ''Unused''] \<and>
   (2::int, ''Femur'') \<in> set [(2, ''Femur''), (4, ''Unused'')] \<and>
   map_of (nodes release_graph) 2 = Some (Some \<lparr>fsn = ''Femur'', synonyms = [''Thigh bone'']\<rparr>) \<and>
   (4::int, ''Unused'') \<in> set [(2, ''Femur''), (4, ''Unused'')] \<and>
   map_of (nodes release_graph) 4 = None"
proof -
  from fsn_fallback [of release_relationships release_descriptions,
      unfolded if_P [OF release_types_named]] obtain G out
    where run: "from_rf2 release_relationships release_descriptions = Inr (G, out)"
    and fb: "\<And>c rows.
        rows = filter (\<lambda>d. conceptId d = c) (active_rows release_descriptions) \<Longrightarrow>
        rows \<noteq> [] \<Longrightarrow> (\<forall>d\<in>set rows. typeId d \<noteq> fsn_typeId) \<Longrightarrow>
        (c, term_text (hd rows)) \<in> set out \<and>
        map_of (nodes G) c =
          (if c \<in> sourceId ` set (active_rows release_relationships) \<union>
                  destinationId ` set (active_rows release_relationships)
           then Some (Some \<lparr>fsn = term_text (hd rows), synonyms = map term_text (tl rows)\<rparr>)
           else None)"
    by blast
  from run release_build have G: "G = release_graph" and out: "out = [(2, ''Femur''), (4, ''Unused'')]"
    by simp_all
  from fb [OF release_rows_2 [symmetric]] release_ends
  have two: "(2, ''Femur'') \<in> set out \<and>
    map_of (nodes G) 2 = Some (Some \<lparr>fsn = ''Femur'', synonyms = [''Thigh bone'']\<rparr>)"
    by (simp add: desc_row_def fsn_typeId_def)
  from fb [OF release_rows_4 [symmetric]] release_ends
  have four: "(4, ''Unused'') \<in> set out \<and> map_of (nodes G) 4 = None"
    by (simp add: desc_row_def fsn_typeId_def)
  from two four release_build release_rows_2 release_rows_4 show ?thesis
    unfolding G out by (intro conjI) simp_all
qed

text \<open>
  C7 as stated fails.  The concept 116680003 has one active description row, a synonym,
  and is the type of the only relationship: construction raises \<^verbatim>\<open>KeyError\<close> in the loop
  over the relationships, before any concept is added.
\<close>

theorem fsn_fallback_counterexample:
  "from_rf2 unnamed_type_relationships unnamed_type_descriptions = Inl KeyError \<and>
   filter (\<lambda>d. conceptId d = 116680003) (active_rows unnamed_type_descriptions) =
     [desc_row 1 116680003 900000000000013009 ''Is a''] \<and>
   typeId (desc_row 1 116680003 900000000000013009 ''Is a'') \<noteq> fsn_typeId"
  by code_simp

section \<open>The shortest \<^verbatim>\<open>is a\<close> path to the root\<close>

lemma successors_iff: "v \<in> set (successors G u) \<longleftrightarrow> has_edge G u v"
  by (force simp: successors_def out_edges_def has_edge_def)

lemma simple_path_Cons:
  "is_simple_path G s t (s # q) \<longleftrightarrow>
     (q = [] \<and> s = t) \<or>
     (q \<noteq> [] \<and> has_edge G s (hd q) \<and> s \<notin> set q \<and> is_simple_path G (hd q) t q)"
  by (cases q) (auto simp: is_simple_path_def is_path_def successively_Cons)

lemma simple_path_hd: "is_simple_path G s t p \<Longrightarrow> \<exists>q. p = s # q"
  by (cases p) (auto simp: is_simple_path_def is_path_def)

lemma simple_path_at_target:
  assumes "is_simple_path G t t p" shows "p = [t]"
proof -
  from simple_path_hd [OF assms] obtain q where p: "p = t # q" by blast
  show ?thesis
  proof (cases q)
    case Nil
    with p show ?thesis by simp
  next
    case (Cons a q')
    with assms p have "last (a # q') = t" "t \<notin> set (a # q')"
      by (auto simp: is_simple_path_def)
    then show ?thesis using last_in_set [of "a # q'"] by simp
  qed
qed

lemma simple_paths_from_set:
  "current \<notin> set visited \<Longrightarrow> current \<noteq> target \<Longrightarrow>
   set (simple_paths_from G target visited current) =
     (\<lambda>p. visited @ p) ` {p. is_simple_path G current target p \<and> set p \<inter> set visited = {}}"
proof (induction G target visited current rule: simple_paths_from.induct)
  case (1 G target visited current)
  let ?S = "{p. is_simple_path G current target p \<and> set p \<inter> set visited = {}}"
  let ?branch = "\<lambda>child.
      if child \<in> set visited \<or> child = current then []
      else if child = target then [visited @ [current, child]]
      else simple_paths_from G target (visited @ [current]) child"
  have branch: "set (?branch child) =
      (\<lambda>p. visited @ p) ` {p \<in> ?S. \<exists>q. p = current # child # q}"
    if ch: "child \<in> set (successors G current)" for child
  proof (cases "child \<in> set visited \<or> child = current")
    case True
    have "p \<notin> ?S" if "p = current # child # q" for p q
    proof
      assume "p \<in> ?S"
      with that have "distinct (current # child # q)"
        and "set (current # child # q) \<inter> set visited = {}"
        by (simp_all add: is_simple_path_def)
      with True show False by auto
    qed
    then have "{p \<in> ?S. \<exists>q. p = current # child # q} = {}" by blast
    with True show ?thesis by simp
  next
    case False
    note nv = this
    show ?thesis
    proof (cases "child = target")
      case True
      have "{p \<in> ?S. \<exists>q. p = current # child # q} = {[current, child]}"
      proof (intro equalityI subsetI)
        fix p assume "p \<in> {p \<in> ?S. \<exists>q. p = current # child # q}"
        then obtain q where p: "p = current # child # q" and sp: "is_simple_path G current target p"
          by blast
        from sp p "1.prems" have "is_simple_path G child target (child # q)"
          by (simp add: simple_path_Cons)
        with True simple_path_at_target have "child # q = [target]" by blast
        with p True show "p \<in> {[current, child]}" by simp
      next
        fix p assume "p \<in> {[current, child]}"
        then have p: "p = [current, child]" by simp
        from ch have "has_edge G current child" by (simp add: successors_iff)
        with True nv "1.prems" have "is_simple_path G current target p"
          by (auto simp: p is_simple_path_def is_path_def)
        with nv "1.prems" show "p \<in> {p \<in> ?S. \<exists>q. p = current # child # q}"
          by (auto simp: p)
      qed
      with True nv show ?thesis by simp
    next
      case neq: False
      from nv have pre: "child \<notin> set (visited @ [current])" by simp
      note IH = "1.IH" [OF ch nv neq pre neq]
      have "(\<lambda>p. (visited @ [current]) @ p) `
          {p. is_simple_path G child target p \<and> set p \<inter> set (visited @ [current]) = {}} =
        (\<lambda>p. visited @ p) ` {p \<in> ?S. \<exists>q. p = current # child # q}"
      proof (intro equalityI subsetI)
        fix x assume "x \<in> (\<lambda>p. (visited @ [current]) @ p) `
          {p. is_simple_path G child target p \<and> set p \<inter> set (visited @ [current]) = {}}"
        then obtain p where x: "x = (visited @ [current]) @ p"
          and sp: "is_simple_path G child target p"
          and av: "set p \<inter> set (visited @ [current]) = {}" by blast
        from simple_path_hd [OF sp] obtain q where p: "p = child # q" by blast
        from ch have "has_edge G current child" by (simp add: successors_iff)
        with sp av p have "is_simple_path G current target (current # p)"
          by (auto simp: simple_path_Cons)
        moreover from av "1.prems" have "set (current # p) \<inter> set visited = {}" by auto
        ultimately have "current # p \<in> {p \<in> ?S. \<exists>q. p = current # child # q}"
          using p by simp
        moreover have "x = visited @ (current # p)" by (simp add: x)
        ultimately show "x \<in> (\<lambda>p. visited @ p) ` {p \<in> ?S. \<exists>q. p = current # child # q}"
          by blast
      next
        fix x assume "x \<in> (\<lambda>p. visited @ p) ` {p \<in> ?S. \<exists>q. p = current # child # q}"
        then obtain q where x: "x = visited @ current # child # q"
          and sp: "is_simple_path G current target (current # child # q)"
          and av: "set (current # child # q) \<inter> set visited = {}" by blast
        from sp have "is_simple_path G child target (child # q)" "current \<notin> set (child # q)"
          by (simp_all add: simple_path_Cons)
        with av have "child # q \<in>
          {p. is_simple_path G child target p \<and> set p \<inter> set (visited @ [current]) = {}}"
          by auto
        moreover have "x = (visited @ [current]) @ (child # q)" by (simp add: x)
        ultimately show "x \<in> (\<lambda>p. (visited @ [current]) @ p) `
          {p. is_simple_path G child target p \<and> set p \<inter> set (visited @ [current]) = {}}"
          by blast
      qed
      with IH nv neq show ?thesis by simp
    qed
  qed
  have "set (simple_paths_from G target visited current) =
      (\<Union>child\<in>set (successors G current). set (?branch child))"
    by (subst simple_paths_from.simps) (simp only: set_concat set_map image_image)
  also have "\<dots> = (\<Union>child\<in>set (successors G current).
      (\<lambda>p. visited @ p) ` {p \<in> ?S. \<exists>q. p = current # child # q})"
    using branch by simp
  also have "\<dots> = (\<lambda>p. visited @ p) ` ?S"
  proof (intro equalityI subsetI)
    fix x assume "x \<in> (\<Union>child\<in>set (successors G current).
      (\<lambda>p. visited @ p) ` {p \<in> ?S. \<exists>q. p = current # child # q})"
    then show "x \<in> (\<lambda>p. visited @ p) ` ?S" by blast
  next
    fix x assume "x \<in> (\<lambda>p. visited @ p) ` ?S"
    then obtain p where x: "x = visited @ p" and p: "p \<in> ?S" by blast
    then have sp: "is_simple_path G current target p" by simp
    from simple_path_hd [OF sp] obtain q where pq: "p = current # q" by blast
    with sp "1.prems" have "q \<noteq> []" "has_edge G current (hd q)"
      by (auto simp: simple_path_Cons)
    then obtain child q' where q: "q = child # q'" and e: "has_edge G current child"
      by (cases q) auto
    from e have "child \<in> set (successors G current)" by (simp add: successors_iff)
    moreover from p pq q have "p \<in> {p \<in> ?S. \<exists>q. p = current # child # q}" by simp
    ultimately show "x \<in> (\<Union>child\<in>set (successors G current).
      (\<lambda>p. visited @ p) ` {p \<in> ?S. \<exists>q. p = current # child # q})"
      using x by blast
  qed
  finally show ?case .
qed

corollary simple_paths_from_source:
  "source \<noteq> target \<Longrightarrow>
   set (simple_paths_from G target [] source) = {p. is_simple_path G source target p}"
  using simple_paths_from_set [of source "[]" target G] by simp


lemma isa_path_Some:
  "isa_path G es acc = Inr (Some rels) \<Longrightarrow>
     \<exists>new. rels = acc @ new \<and> list_all2 (is_relationship G) es new \<and>
       (\<forall>r\<in>set new. type_id r = is_a_relationship_typeId)"
proof (induction es arbitrary: acc)
  case Nil
  then show ?case by simp
next
  case (Cons e es)
  obtain u v where e: "e = (u, v)" by (cases e)
  from Cons.prems e obtain vals s t where vals: "edge_vals G (u, v) = Inr vals"
    and s: "get_concept_details G u = Inr s" and t: "get_concept_details G v = Inr t"
    and isa: "type_id (make_relationship s t vals) = is_a_relationship_typeId"
    and rest: "isa_path G es (acc @ [make_relationship s t vals]) = Inr (Some rels)"
    by (auto split: sum.splits if_splits)
  from Cons.IH [OF rest] obtain new where new: "rels = (acc @ [make_relationship s t vals]) @ new"
    and all: "list_all2 (is_relationship G) es new"
    and ty: "\<forall>r\<in>set new. type_id r = is_a_relationship_typeId" by blast
  have "is_relationship G e (make_relationship s t vals)"
    using vals s t get_concept_details_sctid [OF s] get_concept_details_sctid [OF t]
    by (simp add: is_relationship_def e make_relationship_def rel_edge_def)
  with new all ty isa show ?case
    by (intro exI [of _ "make_relationship s t vals # new"]) simp
qed

lemma isa_path_None:
  "isa_path G es acc = Inr None \<Longrightarrow>
     \<exists>e\<in>set es. \<exists>a. map_of (edges G) e = Some a \<and> type_id a \<noteq> is_a_relationship_typeId"
proof (induction es arbitrary: acc)
  case Nil
  then show ?case by simp
next
  case (Cons e es)
  obtain u v where e: "e = (u, v)" by (cases e)
  from Cons.prems e obtain vals s t where vals: "edge_vals G (u, v) = Inr vals"
    and s: "get_concept_details G u = Inr s" and t: "get_concept_details G v = Inr t"
    and rest: "(if type_id (make_relationship s t vals) = is_a_relationship_typeId
                then isa_path G es (acc @ [make_relationship s t vals]) else Inr None) = Inr None"
    by (auto split: sum.splits)
  show ?case
  proof (cases "type_id (make_relationship s t vals) = is_a_relationship_typeId")
    case True
    with rest Cons.IH show ?thesis by auto
  next
    case False
    from vals have "map_of (edges G) e = Some vals"
      by (auto simp: edge_vals_def e split: option.splits)
    with False show ?thesis by (auto simp: make_relationship_def)
  qed
qed

lemma is_relationship_vals:
  "is_relationship G e r \<Longrightarrow>
     map_of (edges G) e = Some \<lparr>group = group r, type_name = type_name r, type_id = type_id r\<rparr>"
  by (auto simp: is_relationship_def edge_vals_def split: option.splits)

lemma candidate_all_isa:
  assumes "isa_path G (pairwise_list p) [] = Inr c"
  shows "(c \<noteq> None \<longleftrightarrow> all_isa G p) \<and>
         (\<forall>rels. c = Some rels \<longrightarrow>
            list_all2 (is_relationship G) (pairwise_list p) rels \<and>
            (\<forall>r\<in>set rels. type_id r = is_a_relationship_typeId))"
proof (cases c)
  case None
  from isa_path_None [OF assms [unfolded None]] obtain e a
    where e: "e \<in> set (pairwise_list p)" and a: "map_of (edges G) e = Some a"
    and ty: "type_id a \<noteq> is_a_relationship_typeId" by blast
  have "\<not> all_isa G p"
  proof
    assume "all_isa G p"
    with e have "case map_of (edges G) e of
        None \<Rightarrow> False | Some a \<Rightarrow> type_id a = is_a_relationship_typeId"
      unfolding all_isa_def by blast
    with a ty show False by simp
  qed
  with None show ?thesis by simp
next
  case (Some rels)
  from isa_path_Some [OF assms [unfolded Some]]
  have all: "list_all2 (is_relationship G) (pairwise_list p) rels"
    and ty: "\<forall>r\<in>set rels. type_id r = is_a_relationship_typeId" by auto
  have "all_isa G p"
    unfolding all_isa_def
  proof
    fix e assume "e \<in> set (pairwise_list p)"
    then obtain i where i: "i < length (pairwise_list p)" "pairwise_list p ! i = e"
      by (auto simp: in_set_conv_nth)
    with all have "rels ! i \<in> set rels" "is_relationship G e (rels ! i)"
      by (auto simp: list_all2_conv_all_nth)
    then obtain r where "r \<in> set rels" "is_relationship G e r" by blast
    with ty is_relationship_vals [of G e r]
    show "case map_of (edges G) e of
        None \<Rightarrow> False | Some a \<Rightarrow> type_id a = is_a_relationship_typeId"
      by auto
  qed
  with Some all ty show ?thesis by simp
qed

lemma shortest_loop_fold:
  "shortest_loop G ps acc = Inr r \<Longrightarrow>
     \<exists>cs. list_all2 (\<lambda>p c. isa_path G (pairwise_list p) [] = Inr c) ps cs \<and>
          r = foldl keep_shorter acc cs"
proof (induction ps arbitrary: acc)
  case Nil
  then show ?case by simp
next
  case (Cons p ps)
  from Cons.prems obtain c where c: "isa_path G (pairwise_list p) [] = Inr c"
    and rest: "shortest_loop G ps (keep_shorter acc c) = Inr r"
    by (auto split: sum.splits)
  from Cons.IH [OF rest] obtain cs
    where "list_all2 (\<lambda>p c. isa_path G (pairwise_list p) [] = Inr c) ps cs"
    and "r = foldl keep_shorter (keep_shorter acc c) cs" by blast
  with c show ?case by (intro exI [of _ "c # cs"]) simp
qed

lemma keep_shorter_selectI:
  assumes r: "foldl keep_shorter None xs = Some rels"
    and i: "i < length xs" "xs ! i = Some rels" "rels \<noteq> []"
    and le: "\<forall>j<length xs. truthy (xs ! j) \<longrightarrow> length rels \<le> length (the (xs ! j))"
    and lt: "\<forall>j<i. truthy (xs ! j) \<longrightarrow> length rels < length (the (xs ! j))"
  shows "(foldl keep_shorter None xs = None \<longleftrightarrow> (\<forall>c\<in>set xs. \<not> truthy c)) \<and>
   (\<forall>rels. foldl keep_shorter None xs = Some rels \<longrightarrow>
      (\<exists>i<length xs. xs ! i = Some rels \<and> rels \<noteq> [] \<and>
         (\<forall>j<length xs. truthy (xs ! j) \<longrightarrow> length rels \<le> length (the (xs ! j))) \<and>
         (\<forall>j<i. truthy (xs ! j) \<longrightarrow> length rels < length (the (xs ! j)))))"
proof (intro conjI allI impI)
  from i(1) have "xs ! i \<in> set xs" by (rule nth_mem)
  moreover from i have "truthy (xs ! i)" by (simp add: truthy_def)
  ultimately have "xs ! i \<in> set xs" "truthy (xs ! i)" .
  then have "\<not> (\<forall>c\<in>set xs. \<not> truthy c)" by blast
  with r show "foldl keep_shorter None xs = None \<longleftrightarrow> (\<forall>c\<in>set xs. \<not> truthy c)" by simp
next
  fix rels' assume "foldl keep_shorter None xs = Some rels'"
  with r have "rels' = rels" by simp
  with i le lt show "\<exists>i<length xs. xs ! i = Some rels' \<and> rels' \<noteq> [] \<and>
         (\<forall>j<length xs. truthy (xs ! j) \<longrightarrow> length rels' \<le> length (the (xs ! j))) \<and>
         (\<forall>j<i. truthy (xs ! j) \<longrightarrow> length rels' < length (the (xs ! j)))"
    by blast
qed

lemma keep_shorter_select:
  "(foldl keep_shorter None cs = None \<longleftrightarrow> (\<forall>c\<in>set cs. \<not> truthy c)) \<and>
   (\<forall>rels. foldl keep_shorter None cs = Some rels \<longrightarrow>
      (\<exists>i<length cs. cs ! i = Some rels \<and> rels \<noteq> [] \<and>
         (\<forall>j<length cs. truthy (cs ! j) \<longrightarrow> length rels \<le> length (the (cs ! j))) \<and>
         (\<forall>j<i. truthy (cs ! j) \<longrightarrow> length rels < length (the (cs ! j)))))"
proof (induction cs rule: rev_induct)
  case Nil
  show ?case by simp
next
  case (snoc c cs)
  let ?r = "foldl keep_shorter None cs"
  let ?xs = "cs @ [c]"
  have step: "foldl keep_shorter None ?xs = keep_shorter ?r c" by simp
  have last: "?xs ! length cs = c" by simp
  have old_nth: "?xs ! j = cs ! j" if "j < length cs" for j
    using that by (simp add: nth_append)
  have split: "j < length cs \<or> j = length cs" if "j < length ?xs" for j
    using that by auto
  show ?case
  proof (cases "truthy c")
    case False
    then have same: "foldl keep_shorter None ?xs = ?r" by (simp add: keep_shorter_def)
    show ?thesis
    proof (cases ?r)
      case None
      with snoc have "\<forall>c\<in>set cs. \<not> truthy c" by simp
      with False have "\<forall>c\<in>set ?xs. \<not> truthy c" by simp
      with None same show ?thesis by simp
    next
      case (Some old)
      with snoc obtain i where i: "i < length cs" "cs ! i = Some old" "old \<noteq> []"
        and le: "\<forall>j<length cs. truthy (cs ! j) \<longrightarrow> length old \<le> length (the (cs ! j))"
        and lt: "\<forall>j<i. truthy (cs ! j) \<longrightarrow> length old < length (the (cs ! j))"
        by blast
      have le': "\<forall>j<length ?xs. truthy (?xs ! j) \<longrightarrow> length old \<le> length (the (?xs ! j))"
      proof (intro allI impI)
        fix j assume j: "j < length ?xs" and t: "truthy (?xs ! j)"
        from split [OF j] show "length old \<le> length (the (?xs ! j))"
        proof
          assume "j < length cs"
          with le t show ?thesis by (simp add: old_nth)
        next
          assume "j = length cs"
          with t False show ?thesis by simp
        qed
      qed
      have lt': "\<forall>j<i. truthy (?xs ! j) \<longrightarrow> length old < length (the (?xs ! j))"
        using lt i(1) by (simp add: old_nth)
      from i have i': "i < length ?xs" "?xs ! i = Some old" by (simp_all add: old_nth)
      from same Some have r: "foldl keep_shorter None ?xs = Some old" by simp
      show ?thesis by (rule keep_shorter_selectI [OF r i' i(3) le' lt'])
    qed
  next
    case True
    then obtain new where c: "c = Some new" and new: "new \<noteq> []"
      by (auto simp: truthy_def split: option.splits)
    have il: "length cs < length ?xs" by simp
    have cl: "?xs ! length cs = Some new" by (simp add: c)
    show ?thesis
    proof (cases ?r)
      case None
      with snoc have none: "\<forall>c\<in>set cs. \<not> truthy c" by simp
      from None True have r: "foldl keep_shorter None ?xs = Some new"
        by (simp add: keep_shorter_def truthy_def c)
      have lt': "\<forall>j<length cs. truthy (?xs ! j) \<longrightarrow> length new < length (the (?xs ! j))"
        using none by (simp add: old_nth)
      have le': "\<forall>j<length ?xs. truthy (?xs ! j) \<longrightarrow> length new \<le> length (the (?xs ! j))"
      proof (intro allI impI)
        fix j assume j: "j < length ?xs" and t: "truthy (?xs ! j)"
        from split [OF j] show "length new \<le> length (the (?xs ! j))"
        proof
          assume "j < length cs"
          with lt' t show ?thesis by auto
        next
          assume "j = length cs"
          then show ?thesis by (simp add: c)
        qed
      qed
      show ?thesis by (rule keep_shorter_selectI [OF r il cl new le' lt'])
    next
      case (Some old)
      with snoc obtain i where i: "i < length cs" "cs ! i = Some old" "old \<noteq> []"
        and le: "\<forall>j<length cs. truthy (cs ! j) \<longrightarrow> length old \<le> length (the (cs ! j))"
        and lt: "\<forall>j<i. truthy (cs ! j) \<longrightarrow> length old < length (the (cs ! j))"
        by blast
      show ?thesis
      proof (cases "length old > length new")
        case shorter: True
        with Some True i(3) have r: "foldl keep_shorter None ?xs = Some new"
          by (simp add: keep_shorter_def truthy_def c)
        have lt': "\<forall>j<length cs. truthy (?xs ! j) \<longrightarrow> length new < length (the (?xs ! j))"
        proof (intro allI impI)
          fix j assume j: "j < length cs" and t: "truthy (?xs ! j)"
          with le have "length old \<le> length (the (cs ! j))" by (simp add: old_nth)
          with shorter j show "length new < length (the (?xs ! j))" by (simp add: old_nth)
        qed
        have le': "\<forall>j<length ?xs. truthy (?xs ! j) \<longrightarrow> length new \<le> length (the (?xs ! j))"
        proof (intro allI impI)
          fix j assume j: "j < length ?xs" and t: "truthy (?xs ! j)"
          from split [OF j] show "length new \<le> length (the (?xs ! j))"
          proof
            assume "j < length cs"
            with lt' t show ?thesis by auto
          next
            assume "j = length cs"
            then show ?thesis by (simp add: c)
          qed
        qed
        show ?thesis by (rule keep_shorter_selectI [OF r il cl new le' lt'])
      next
        case False
        with Some True i(3) have r: "foldl keep_shorter None ?xs = Some old"
          by (simp add: keep_shorter_def truthy_def c)
        have le': "\<forall>j<length ?xs. truthy (?xs ! j) \<longrightarrow> length old \<le> length (the (?xs ! j))"
        proof (intro allI impI)
          fix j assume j: "j < length ?xs" and t: "truthy (?xs ! j)"
          from split [OF j] show "length old \<le> length (the (?xs ! j))"
          proof
            assume "j < length cs"
            with le t show ?thesis by (simp add: old_nth)
          next
            assume "j = length cs"
            with False show ?thesis by (simp add: c)
          qed
        qed
        have lt': "\<forall>j<i. truthy (?xs ! j) \<longrightarrow> length old < length (the (?xs ! j))"
          using lt i(1) by (simp add: old_nth)
        from i have i': "i < length ?xs" "?xs ! i = Some old" by (simp_all add: old_nth)
        show ?thesis by (rule keep_shorter_selectI [OF r i' i(3) le' lt'])
      qed
    qed
  qed
qed


lemma length_pairwise_list [simp]: "length (pairwise_list p) = length p - 1"
  by (simp add: pairwise_list_def)

lemma simple_path_length:
  assumes "is_simple_path G s t p" and "s \<noteq> t"
  shows "2 \<le> length p"
proof -
  from simple_path_hd [OF assms(1)] obtain q where p: "p = s # q" by blast
  with assms have "q \<noteq> []" by (auto simp: is_simple_path_def)
  with p show ?thesis by (cases q) simp_all
qed

text \<open>
  C2 (as amended).  Whenever \<^verbatim>\<open>path_to_root(id)\<close> returns: for the root itself the result
  is \<^verbatim>\<open>None\<close>; for any other concept the result is \<^verbatim>\<open>None\<close> exactly when no simple path
  from it to the root has only \<^verbatim>\<open>is a\<close> edges, and otherwise it is the list of the
  relationships along one of the simple paths that \<^verbatim>\<open>all_simple_paths\<close> yields, which has
  only \<^verbatim>\<open>is a\<close> edges, has no more edges than any simple \<^verbatim>\<open>is a\<close> path from the concept to the
  root, and has fewer edges than every \<^verbatim>\<open>is a\<close> path yielded before it (the first found
  survives a tie).  A candidate with an edge of another type is never the result.
\<close>

theorem path_to_root_first_shortest:
  assumes "path_to_root G c print = Inr r"
  shows "(c = root_concept_id \<longrightarrow> r = None) \<and>
         (c \<noteq> root_concept_id \<longrightarrow>
            (r = None \<longleftrightarrow> \<not> (\<exists>p. is_simple_path G c root_concept_id p \<and> all_isa G p)) \<and>
            (\<forall>rels. r = Some rels \<longrightarrow>
               (\<exists>paths i.
                  all_simple_paths G c root_concept_id = Inr paths \<and> i < length paths \<and>
                  is_simple_path G c root_concept_id (paths ! i) \<and> all_isa G (paths ! i) \<and>
                  list_all2 (is_relationship G) (pairwise_list (paths ! i)) rels \<and>
                  (\<forall>q. is_simple_path G c root_concept_id q \<and> all_isa G q \<longrightarrow>
                     length (paths ! i) \<le> length q) \<and>
                  (\<forall>j<i. all_isa G (paths ! j) \<longrightarrow> length (paths ! i) < length (paths ! j)))))"
proof -
  from assms obtain paths where ap: "all_simple_paths G c root_concept_id = Inr paths"
    and loop: "shortest_loop G paths None = Inr r"
    by (auto simp: path_to_root_def split: sum.splits if_splits option.splits list.splits)
  from shortest_loop_fold [OF loop] obtain cs
    where cand: "list_all2 (\<lambda>p c. isa_path G (pairwise_list p) [] = Inr c) paths cs"
    and r: "r = foldl keep_shorter None cs" by blast
  from cand have len: "length cs = length paths" by (simp add: list_all2_lengthD)
  from cand have nth: "isa_path G (pairwise_list (paths ! k)) [] = Inr (cs ! k)"
    if "k < length paths" for k using that by (simp add: list_all2_conv_all_nth)
  show ?thesis
  proof (intro conjI impI)
    assume "c = root_concept_id"
    with ap have "paths = [[c]]" by (auto simp: all_simple_paths_def split: if_splits)
    with cand have "cs = [Some []]"
      by (auto simp: list_all2_Cons1 pairwise_list_def)
    with r show "r = None" by (simp add: keep_shorter_def truthy_def)
  next
    assume ne: "c \<noteq> root_concept_id"
    with ap have paths: "paths = simple_paths_from G root_concept_id [] c"
      by (auto simp: all_simple_paths_def split: if_splits)
    have set_paths: "set paths = {p. is_simple_path G c root_concept_id p}"
      unfolding paths by (rule simple_paths_from_source [OF ne])
    have simple: "is_simple_path G c root_concept_id (paths ! k)" if "k < length paths" for k
      using set_paths nth_mem [OF that] by blast
    have long: "2 \<le> length (paths ! k)" if "k < length paths" for k
      by (rule simple_path_length [OF simple [OF that] ne])
    have cand_k: "(truthy (cs ! k) \<longleftrightarrow> all_isa G (paths ! k)) \<and>
        (truthy (cs ! k) \<longrightarrow>
           length (the (cs ! k)) = length (paths ! k) - 1 \<and>
           list_all2 (is_relationship G) (pairwise_list (paths ! k)) (the (cs ! k)))"
      if k: "k < length paths" for k
    proof (cases "cs ! k")
      case None
      with candidate_all_isa [OF nth [OF k]] show ?thesis by (simp add: truthy_def)
    next
      case (Some rels)
      with candidate_all_isa [OF nth [OF k]]
      have isa: "all_isa G (paths ! k)"
        and all: "list_all2 (is_relationship G) (pairwise_list (paths ! k)) rels" by simp_all
      from all have l: "length rels = length (paths ! k) - 1"
        by (simp add: list_all2_lengthD [symmetric])
      with long [OF k] have "rels \<noteq> []" by auto
      with Some isa all l show ?thesis by (simp add: truthy_def)
    qed
    note sel = keep_shorter_select [of cs, folded r]
    show "r = None \<longleftrightarrow> \<not> (\<exists>p. is_simple_path G c root_concept_id p \<and> all_isa G p)"
    proof
      assume "r = None"
      with sel have none: "\<forall>c\<in>set cs. \<not> truthy c" by simp
      show "\<not> (\<exists>p. is_simple_path G c root_concept_id p \<and> all_isa G p)"
      proof
        assume "\<exists>p. is_simple_path G c root_concept_id p \<and> all_isa G p"
        then obtain p where "p \<in> set paths" "all_isa G p" using set_paths by blast
        then obtain k where k: "k < length paths" "paths ! k = p" by (auto simp: in_set_conv_nth)
        with cand_k [OF k(1)] \<open>all_isa G p\<close> have "truthy (cs ! k)" by simp
        moreover from k len have "cs ! k \<in> set cs" by simp
        ultimately show False using none by blast
      qed
    next
      assume no: "\<not> (\<exists>p. is_simple_path G c root_concept_id p \<and> all_isa G p)"
      have "\<not> truthy x" if "x \<in> set cs" for x
      proof -
        from that obtain k where k: "k < length cs" "cs ! k = x" by (auto simp: in_set_conv_nth)
        with len have k': "k < length paths" by simp
        from no simple [OF k'] have "\<not> all_isa G (paths ! k)" by blast
        with cand_k [OF k'] k show ?thesis by simp
      qed
      with sel show "r = None" by blast
    qed
    show "\<forall>rels. r = Some rels \<longrightarrow>
       (\<exists>paths i.
          all_simple_paths G c root_concept_id = Inr paths \<and> i < length paths \<and>
          is_simple_path G c root_concept_id (paths ! i) \<and> all_isa G (paths ! i) \<and>
          list_all2 (is_relationship G) (pairwise_list (paths ! i)) rels \<and>
          (\<forall>q. is_simple_path G c root_concept_id q \<and> all_isa G q \<longrightarrow>
             length (paths ! i) \<le> length q) \<and>
          (\<forall>j<i. all_isa G (paths ! j) \<longrightarrow> length (paths ! i) < length (paths ! j)))"
    proof (intro allI impI)
      fix rels assume "r = Some rels"
      with sel obtain i where i: "i < length cs" "cs ! i = Some rels" "rels \<noteq> []"
        and le: "\<forall>j<length cs. truthy (cs ! j) \<longrightarrow> length rels \<le> length (the (cs ! j))"
        and lt: "\<forall>j<i. truthy (cs ! j) \<longrightarrow> length rels < length (the (cs ! j))"
        by blast
      from i len have i': "i < length paths" by simp
      from i have ti: "truthy (cs ! i)" by (simp add: truthy_def)
      with cand_k [OF i'] i have isa: "all_isa G (paths ! i)"
        and li: "length rels = length (paths ! i) - 1"
        and rel: "list_all2 (is_relationship G) (pairwise_list (paths ! i)) rels" by simp_all
      have min: "length (paths ! i) \<le> length q"
        if q: "is_simple_path G c root_concept_id q \<and> all_isa G q" for q
      proof -
        from q set_paths have "q \<in> set paths" by blast
        then obtain k where k: "k < length paths" "paths ! k = q"
          by (auto simp: in_set_conv_nth)
        with cand_k [OF k(1)] q have t: "truthy (cs ! k)"
          and lk: "length (the (cs ! k)) = length q - 1" by simp_all
        from le k(1) len t have "length rels \<le> length (the (cs ! k))" by simp
        with li lk long [OF i'] long [OF k(1)] k(2) show ?thesis by simp
      qed
      have first: "length (paths ! i) < length (paths ! j)"
        if j: "j < i" and a: "all_isa G (paths ! j)" for j
      proof -
        from j i' have j': "j < length paths" by simp
        with cand_k [OF j'] a have t: "truthy (cs ! j)"
          and lj: "length (the (cs ! j)) = length (paths ! j) - 1" by simp_all
        from lt j t have "length rels < length (the (cs ! j))" by simp
        with li lj long [OF i'] long [OF j'] show ?thesis by simp
      qed
      from ap i' simple [OF i'] isa rel min first
      show "\<exists>paths i.
          all_simple_paths G c root_concept_id = Inr paths \<and> i < length paths \<and>
          is_simple_path G c root_concept_id (paths ! i) \<and> all_isa G (paths ! i) \<and>
          list_all2 (is_relationship G) (pairwise_list (paths ! i)) rels \<and>
          (\<forall>q. is_simple_path G c root_concept_id q \<and> all_isa G q \<longrightarrow>
             length (paths ! i) \<le> length q) \<and>
          (\<forall>j<i. all_isa G (paths ! j) \<longrightarrow> length (paths ! i) < length (paths ! j))"
        by blast
    qed
  qed
qed


lemma diamond_paths:
  "all_simple_paths g_diamond 1 root_concept_id =
     Inr [[1, 2, 4, 138875005], [1, 2, 138875005], [1, 3, 138875005], [1, 5, 138875005]]"
  by code_simp

lemma diamond_path_to_root: "path_to_root g_diamond 1 False = Inr (Some diamond_path)"
  by code_simp

theorem path_to_root_first_shortest_witness:
  "path_to_root g_diamond 1 False = Inr (Some diamond_path) \<and>
   all_simple_paths g_diamond 1 root_concept_id =
     Inr [[1, 2, 4, 138875005], [1, 2, 138875005], [1, 3, 138875005], [1, 5, 138875005]] \<and>
   (\<exists>paths i.
      all_simple_paths g_diamond 1 root_concept_id = Inr paths \<and> i < length paths \<and>
      is_simple_path g_diamond 1 root_concept_id (paths ! i) \<and> all_isa g_diamond (paths ! i) \<and>
      list_all2 (is_relationship g_diamond) (pairwise_list (paths ! i)) diamond_path \<and>
      (\<forall>q. is_simple_path g_diamond 1 root_concept_id q \<and> all_isa g_diamond q \<longrightarrow>
         length (paths ! i) \<le> length q) \<and>
      (\<forall>j<i. all_isa g_diamond (paths ! j) \<longrightarrow> length (paths ! i) < length (paths ! j)))"
proof -
  have ne: "(1::int) \<noteq> root_concept_id" by (simp add: root_concept_id_def)
  from path_to_root_first_shortest [OF diamond_path_to_root] ne
  have "\<exists>paths i.
      all_simple_paths g_diamond 1 root_concept_id = Inr paths \<and> i < length paths \<and>
      is_simple_path g_diamond 1 root_concept_id (paths ! i) \<and> all_isa g_diamond (paths ! i) \<and>
      list_all2 (is_relationship g_diamond) (pairwise_list (paths ! i)) diamond_path \<and>
      (\<forall>q. is_simple_path g_diamond 1 root_concept_id q \<and> all_isa g_diamond q \<longrightarrow>
         length (paths ! i) \<le> length q) \<and>
      (\<forall>j<i. all_isa g_diamond (paths ! j) \<longrightarrow> length (paths ! i) < length (paths ! j))"
    by blast
  with diamond_path_to_root diamond_paths show ?thesis by (intro conjI)
qed

text \<open>
  C2 as stated fails at the root concept: the path of no edges from the root to itself
  is a simple path all of whose edges are \<^verbatim>\<open>is a\<close>, and \<^verbatim>\<open>path_to_root\<close> returns \<^verbatim>\<open>None\<close>, the
  result it gives when no path exists.
\<close>

theorem path_to_root_counterexample:
  "has_node g3 root_concept_id \<and>
   is_simple_path g3 root_concept_id root_concept_id [root_concept_id] \<and>
   all_isa g3 [root_concept_id] \<and>
   path_to_root g3 root_concept_id False = Inr None"
  by code_simp

section \<open>The shortest path between two concepts\<close>

lemma simple_path_connects: "is_simple_path G s t p \<Longrightarrow> connects G s t p"
  by (simp add: is_simple_path_def connects_def)

lemma cut_cycle:
  assumes "connects G s t (xs @ [y] @ ys @ [y] @ zs)"
  shows "connects G s t (xs @ [y] @ zs)"
proof -
  from assms have a: "successively (has_edge G) ((xs @ [y]) @ (ys @ [y] @ zs))"
    and b: "successively (has_edge G) ((xs @ [y] @ ys) @ ([y] @ zs))"
    by (simp_all add: connects_def is_path_def)
  from a have 1: "successively (has_edge G) (xs @ [y])"
    unfolding successively_append_iff by blast
  from b have 2: "successively (has_edge G) ([y] @ zs)"
    unfolding successively_append_iff by blast
  from 1 2 have "successively (has_edge G) (xs @ [y] @ zs)"
    by (auto simp: successively_append_iff)
  moreover from assms have "hd (xs @ [y] @ zs) = s" "last (xs @ [y] @ zs) = t"
    by (auto simp: connects_def hd_append)
  ultimately show ?thesis by (simp add: connects_def is_path_def)
qed

lemma walk_to_simple:
  "connects G s t q \<Longrightarrow> \<exists>p. is_simple_path G s t p \<and> length p \<le> length q"
proof (induction "length q" arbitrary: q rule: less_induct)
  case less
  show ?case
  proof (cases "distinct q")
    case True
    with less.prems have "is_simple_path G s t q"
      by (simp add: connects_def is_simple_path_def)
    then show ?thesis by blast
  next
    case False
    from not_distinct_decomp [OF this] obtain xs ys zs y
      where q: "q = xs @ [y] @ ys @ [y] @ zs" by blast
    from less.prems have c: "connects G s t (xs @ [y] @ zs)"
      unfolding q by (rule cut_cycle)
    have "length (xs @ [y] @ zs) < length q" by (simp add: q)
    from less.hyps [OF this c] obtain p
      where "is_simple_path G s t p" "length p \<le> length (xs @ [y] @ zs)" by blast
    then show ?thesis by (auto simp: q intro!: exI [of _ p])
  qed
qed

lemma first_shortest_None: "first_shortest ps = None \<longleftrightarrow> ps = []"
  by (induction ps) (auto split: option.splits)

lemma first_shortest_Some:
  "first_shortest ps = Some p \<Longrightarrow> p \<in> set ps \<and> (\<forall>q\<in>set ps. length p \<le> length q)"
proof (induction ps arbitrary: p)
  case Nil
  then show ?case by simp
next
  case (Cons x ps)
  show ?case
  proof (cases "first_shortest ps")
    case None
    with Cons.prems show ?thesis by (simp add: first_shortest_None)
  next
    case (Some q)
    from Cons.IH [OF Some] Cons.prems Some show ?thesis
      by (auto split: if_splits)
  qed
qed

lemma shortest_path_NodeNotFound:
  "shortest_path G s t = Inl e \<Longrightarrow> e = NodeNotFound \<or> e = NetworkXNoPath"
  by (auto simp: shortest_path_def split: if_splits option.splits)

lemma shortest_path_cases:
  "shortest_path G s t = Inl NodeNotFound \<longleftrightarrow> \<not> has_node G s \<or> \<not> has_node G t"
  by (auto simp: shortest_path_def split: if_splits option.splits)

lemma simple_path_self: "is_simple_path G s s [s]"
  by (simp add: is_simple_path_def is_path_def)

lemma shortest_path_NoPath:
  assumes "has_node G s" and "has_node G t"
  shows "shortest_path G s t = Inl NetworkXNoPath \<longleftrightarrow> \<not> (\<exists>p. connects G s t p)"
proof (cases "s = t")
  case True
  have "connects G s s [s]" by (rule simple_path_connects [OF simple_path_self])
  with True assms show ?thesis by (auto simp: shortest_path_def)
next
  case False
  have "first_shortest (simple_paths_from G t [] s) = None \<longleftrightarrow> \<not> (\<exists>p. is_simple_path G s t p)"
    unfolding first_shortest_None using simple_paths_from_source [OF False, of G] by auto
  moreover have "(\<exists>p. is_simple_path G s t p) \<longleftrightarrow> (\<exists>p. connects G s t p)"
    using walk_to_simple simple_path_connects by blast
  ultimately show ?thesis
    using False assms by (auto simp: shortest_path_def split: option.splits)
qed

lemma shortest_path_Inr:
  assumes "shortest_path G s t = Inr p"
  shows "has_node G s \<and> has_node G t \<and> connects G s t p \<and>
         (\<forall>q. connects G s t q \<longrightarrow> length p \<le> length q)"
proof -
  from assms have n: "has_node G s" "has_node G t"
    by (auto simp: shortest_path_def split: if_splits)
  have sp: "is_simple_path G s t p \<and> (\<forall>q. is_simple_path G s t q \<longrightarrow> length p \<le> length q)"
  proof (cases "s = t")
    case True
    with assms n have p: "p = [s]" by (simp add: shortest_path_def)
    have "1 \<le> length q" if "is_simple_path G s t q" for q
      using that by (cases q) (auto simp: is_simple_path_def is_path_def)
    with p True show ?thesis by (auto simp: simple_path_self)
  next
    case False
    with assms n have "first_shortest (simple_paths_from G t [] s) = Some p"
      by (auto simp: shortest_path_def split: option.splits)
    from first_shortest_Some [OF this] show ?thesis
      unfolding simple_paths_from_source [OF False] by simp
  qed
  have "length p \<le> length q" if "connects G s t q" for q
  proof -
    from walk_to_simple [OF that] obtain p' where "is_simple_path G s t p'" "length p' \<le> length q"
      by blast
    with sp show ?thesis by force
  qed
  with n sp simple_path_connects show ?thesis by blast
qed

lemma has_path_cases:
  "has_path G s t =
     (if \<not> has_node G s \<or> \<not> has_node G t then Inl NodeNotFound
      else Inr (\<exists>p. connects G s t p))"
proof (cases "shortest_path G s t")
  case (Inl e)
  from shortest_path_NodeNotFound [OF Inl] show ?thesis
  proof
    assume "e = NodeNotFound"
    with Inl shortest_path_cases [of G s t] show ?thesis by (simp add: has_path_def)
  next
    assume e: "e = NetworkXNoPath"
    with Inl shortest_path_cases [of G s t] have n: "has_node G s" "has_node G t" by auto
    from shortest_path_NoPath [OF n] Inl e n show ?thesis by (simp add: has_path_def)
  qed
next
  case (Inr p)
  from shortest_path_Inr [OF Inr] Inr show ?thesis by (auto simp: has_path_def)
qed


lemma edge_relationship_Inr: "edge_relationship G e = Inr r \<Longrightarrow> is_relationship G e r"
proof -
  assume r: "edge_relationship G e = Inr r"
  obtain u v where e: "e = (u, v)" by (cases e)
  from r e obtain vals s t where vals: "edge_vals G (u, v) = Inr vals"
    and s: "get_concept_details G u = Inr s" and t: "get_concept_details G v = Inr t"
    and rr: "r = make_relationship s t vals"
    by (auto simp: edge_relationship_def split: sum.splits)
  show ?thesis
    using vals s t get_concept_details_sctid [OF s] get_concept_details_sctid [OF t]
    by (simp add: is_relationship_def e rr make_relationship_def rel_edge_def)
qed

lemma find_path_nodes_cases:
  "find_path_nodes G a b =
     (if \<not> has_node G a \<or> \<not> has_node G b then Inl NodeNotFound
      else if \<exists>p. connects G a b p then shortest_path G a b
      else if \<exists>p. connects G b a p then shortest_path G b a
      else Inr [])"
  by (auto simp: find_path_nodes_def has_path_cases split: bool.split)

lemma find_path_nodes_sym:
  "\<not> ((\<exists>p. connects G a b p) \<and> (\<exists>p. connects G b a p)) \<Longrightarrow>
   find_path_nodes G b a = find_path_nodes G a b"
  by (auto simp: find_path_nodes_cases)

lemma find_path_sym:
  "\<not> ((\<exists>p. connects G a b p) \<and> (\<exists>p. connects G b a p)) \<Longrightarrow>
   find_path G b a print = find_path G a b print"
  by (simp add: find_path_def find_path_nodes_sym)

text \<open>
  C3 (as amended).  Whenever \<^verbatim>\<open>find_path(a, b)\<close> returns: if a path leads from \<open>a\<close> to \<open>b\<close>,
  the result lists the relationships along a path from \<open>a\<close> to \<open>b\<close> that has no more edges
  than any other; if none does and a path leads from \<open>b\<close> to \<open>a\<close>, it lists the
  relationships along a path from \<open>b\<close> to \<open>a\<close> that has no more edges than any other; if
  neither exists, it is empty; and unless paths lead both ways, \<^verbatim>\<open>find_path(b, a)\<close> returns
  the same list (the same path in the same direction, not reversed).
\<close>

theorem find_path_shortest_directed:
  assumes "find_path G a b print = Inr rels"
  shows "((\<exists>p. connects G a b p) \<longrightarrow>
            (\<exists>p. connects G a b p \<and> (\<forall>q. connects G a b q \<longrightarrow> length p \<le> length q) \<and>
                 list_all2 (is_relationship G) (pairwise_list p) rels)) \<and>
         (\<not> (\<exists>p. connects G a b p) \<and> (\<exists>p. connects G b a p) \<longrightarrow>
            (\<exists>p. connects G b a p \<and> (\<forall>q. connects G b a q \<longrightarrow> length p \<le> length q) \<and>
                 list_all2 (is_relationship G) (pairwise_list p) rels)) \<and>
         (\<not> (\<exists>p. connects G a b p) \<and> \<not> (\<exists>p. connects G b a p) \<longrightarrow> rels = []) \<and>
         (\<not> ((\<exists>p. connects G a b p) \<and> (\<exists>p. connects G b a p)) \<longrightarrow>
            find_path G b a print = Inr rels)"
proof -
  from assms obtain ns where ns: "find_path_nodes G a b = Inr ns"
    and m: "mapM (edge_relationship G) (pairwise_list ns) = Inr rels"
    by (auto simp: find_path_def split: sum.splits if_splits)
  from mapM_Inr [OF m] have "list_all2 (\<lambda>e r. edge_relationship G e = Inr r) (pairwise_list ns) rels" .
  then have rel: "list_all2 (is_relationship G) (pairwise_list ns) rels"
    by (rule list_all2_mono) (rule edge_relationship_Inr)
  from ns have nodes: "has_node G a" "has_node G b"
    by (auto simp: find_path_nodes_cases split: if_splits)
  show ?thesis
  proof (intro conjI impI)
    assume r: "\<exists>p. connects G a b p"
    with ns nodes have "shortest_path G a b = Inr ns" by (simp add: find_path_nodes_cases)
    from shortest_path_Inr [OF this] rel
    show "\<exists>p. connects G a b p \<and> (\<forall>q. connects G a b q \<longrightarrow> length p \<le> length q) \<and>
        list_all2 (is_relationship G) (pairwise_list p) rels" by blast
  next
    assume r: "\<not> (\<exists>p. connects G a b p) \<and> (\<exists>p. connects G b a p)"
    with ns nodes have "shortest_path G b a = Inr ns" by (simp add: find_path_nodes_cases)
    from shortest_path_Inr [OF this] rel
    show "\<exists>p. connects G b a p \<and> (\<forall>q. connects G b a q \<longrightarrow> length p \<le> length q) \<and>
        list_all2 (is_relationship G) (pairwise_list p) rels" by blast
  next
    assume r: "\<not> (\<exists>p. connects G a b p) \<and> \<not> (\<exists>p. connects G b a p)"
    with ns nodes have "ns = []" by (simp add: find_path_nodes_cases)
    with m show "rels = []" by (simp add: pairwise_list_def)
  next
    assume "\<not> ((\<exists>p. connects G a b p) \<and> (\<exists>p. connects G b a p))"
    from find_path_sym [OF this] assms show "find_path G b a print = Inr rels" by simp
  qed
qed

lemma g3_find_path: "find_path g3 1 138875005 False = Inr g3_path"
  by code_simp

lemma g3_no_way_down: "\<not> (\<exists>p. connects g3 138875005 1 p)"
proof -
  have "has_path g3 138875005 1 = Inr False" by code_simp
  moreover have "has_node g3 138875005" by code_simp
  moreover have "has_node g3 1" by code_simp
  ultimately show ?thesis by (simp add: has_path_cases)
qed

theorem find_path_shortest_directed_witness:
  "find_path g3 1 138875005 False = Inr g3_path \<and>
   find_path g3 138875005 1 False = Inr g3_path \<and>
   connects g3 1 138875005 [1, 2, 138875005] \<and>
   (\<exists>p. connects g3 1 138875005 p \<and> (\<forall>q. connects g3 1 138875005 q \<longrightarrow> length p \<le> length q) \<and>
        list_all2 (is_relationship g3) (pairwise_list p) g3_path)"
proof -
  note t = find_path_shortest_directed [OF g3_find_path]
  have c: "connects g3 1 138875005 [1, 2, 138875005]" by code_simp
  from t g3_no_way_down have reverse: "find_path g3 138875005 1 False = Inr g3_path" by blast
  from t c have "\<exists>p. connects g3 1 138875005 p \<and>
      (\<forall>q. connects g3 1 138875005 q \<longrightarrow> length p \<le> length q) \<and>
      list_all2 (is_relationship g3) (pairwise_list p) g3_path" by blast
  with g3_find_path reverse c show ?thesis by (intro conjI)
qed

text \<open>
  C3 as stated fails where paths lead both ways: on the cycle 1, 2, 3 the path from 1 to
  2 has one edge and the path from 2 to 1 has two, and each query returns the path in its
  own direction.
\<close>

theorem find_path_symmetry_counterexample:
  "find_path g_cycle 1 2 False = Inr cycle_forward \<and>
   find_path g_cycle 2 1 False = Inr cycle_back \<and>
   length cycle_forward = 1 \<and> length cycle_back = 2"
  by code_simp

end
